theory Spec2Isabelle
  imports Main "HOL-Library.Sublist" "HOL-Library.AList"
begin

section \<open>Strings\<close>

text \<open>
  A Python \<open>str\<close> is a sequence of Unicode code points, and \<open>len\<close>, slicing,
  \<open>strip\<close> and the \<open>re\<close> module all work on code points. A string is therefore
  modelled as a list of code points, each a natural number; \<open>ascii\<close> turns an
  Isabelle string literal into such a list.
\<close>

type_synonym pystr = "nat list"

definition ascii :: "string \<Rightarrow> pystr" where
  "ascii s = map of_char s"

text \<open>
  The whitespace code points of the Python runtime (\<open>str.isspace\<close>); \<open>str.strip()\<close>
  and the class \<open>\s\<close> of a \<open>str\<close> pattern use the same table.
\<close>

definition is_space :: "nat \<Rightarrow> bool" where
  "is_space c \<longleftrightarrow>
     (0x09 \<le> c \<and> c \<le> 0x0D) \<or> (0x1C \<le> c \<and> c \<le> 0x20) \<or> c = 0x85 \<or> c = 0xA0 \<or>
     c = 0x1680 \<or> (0x2000 \<le> c \<and> c \<le> 0x200A) \<or> c = 0x2028 \<or> c = 0x2029 \<or>
     c = 0x202F \<or> c = 0x205F \<or> c = 0x3000"

text \<open>\<open>s.strip()\<close>: whitespace is dropped from both ends.\<close>

definition strip :: "pystr \<Rightarrow> pystr" where
  "strip s = rev (dropWhile is_space (rev (dropWhile is_space s)))"

section \<open>utils.py: safe\_filename\<close>

text \<open>
  \<^verbatim>\<open>
  def safe_filename(name: str) -> str:
      name = name.strip().replace("\n", " ")
      name = re.sub(r"[<>:\"/\\|?*\x00-\x1F]", "_", name)
      name = re.sub(r"\s+", " ", name)
      return name[:180] if len(name) > 180 else name
  \<close>
\<close>

text \<open>\<open>.replace("\n", " ")\<close>\<close>

definition replace_newlines :: "pystr \<Rightarrow> pystr" where
  "replace_newlines s = map (\<lambda>c. if c = 0x0A then 0x20 else c) s"

text \<open>
  The character class \<open>[<>:\"/\\|?*\x00-\x1F]\<close>: the nine listed characters
  \<open>< > : " / \ | ? *\<close> and the range of control code points below \<open>0x20\<close>.
\<close>

definition illegal_chars :: "nat list" where
  "illegal_chars = [0x3C, 0x3E, 0x3A, 0x22, 0x2F, 0x5C, 0x7C, 0x3F, 0x2A]"

definition illegal :: "nat \<Rightarrow> bool" where
  "illegal c \<longleftrightarrow> c \<in> set illegal_chars \<or> c \<le> 0x1F"

text \<open>\<open>re.sub(r"[<>:\"/\\|?*\x00-\x1F]", "_", name)\<close>\<close>

definition sub_illegal :: "pystr \<Rightarrow> pystr" where
  "sub_illegal s = map (\<lambda>c. if illegal c then 0x5F else c) s"

text \<open>
  \<open>re.sub(r"\s+", " ", name)\<close>: every maximal run of whitespace becomes one space.
\<close>

function collapse_ws :: "pystr \<Rightarrow> pystr" where
  "collapse_ws [] = []"
| "collapse_ws (c # cs) =
     (if is_space c then 0x20 # collapse_ws (dropWhile is_space cs)
      else c # collapse_ws cs)"
  by pat_completeness auto
termination
  by (relation "measure length") (auto simp: le_imp_less_Suc length_dropWhile_le)

definition safe_filename :: "pystr \<Rightarrow> pystr" where
  "safe_filename name =
     (let name1 = replace_newlines (strip name);
          name2 = sub_illegal name1;
          name3 = collapse_ws name2
      in if length name3 > 180 then take 180 name3 else name3)"

text \<open>
  app.py has its own copy, which differs only in accepting \<open>None\<close>:
  \<open>name = (name or "").strip().replace("\n", " ")\<close>.
\<close>

definition app_safe_filename :: "pystr option \<Rightarrow> pystr" where
  "app_safe_filename name =
     safe_filename (case name of None \<Rightarrow> [] | Some s \<Rightarrow> s)"

text \<open>
  Two notions for reasoning about the result: the name before the final cut, and the
  shape the whitespace substitution leaves behind (every whitespace code point is a single
  space that is followed by a non-space, if by anything).
\<close>

definition collapsed :: "pystr \<Rightarrow> pystr" where
  "collapsed x = collapse_ws (sub_illegal (replace_newlines (strip x)))"

fun single_spaced :: "pystr \<Rightarrow> bool" where
  "single_spaced [] = True"
| "single_spaced (c # cs) =
     ((is_space c \<longrightarrow> c = 0x20 \<and> (cs = [] \<or> \<not> is_space (hd cs))) \<and> single_spaced cs)"

section \<open>features\_download.py: guess\_downloader\<close>

text \<open>
  \<open>needle in hay\<close> on strings: \<open>needle\<close> occurs as a contiguous run of \<open>hay\<close>.
\<close>

fun py_in :: "pystr \<Rightarrow> pystr \<Rightarrow> bool" where
  "py_in needle [] = (needle = [])"
| "py_in needle (c # cs) = (prefix needle (c # cs) \<or> py_in needle cs)"

text \<open>
  \<open>s.lower()\<close>. The letters \<open>A\<close> to \<open>Z\<close> move to \<open>a\<close> to \<open>z\<close> and every other
  ASCII code point stays. What a code point outside ASCII becomes is decided by the case
  table of the Python runtime (one code point may become several); that table is the
  parameter \<open>tbl\<close>. The capital sigma is the one code point whose lower-case form
  depends on its neighbours; both of its forms lie outside ASCII, and the table gives
  one of them.
\<close>

definition lower_cp :: "(nat \<Rightarrow> pystr) \<Rightarrow> nat \<Rightarrow> pystr" where
  "lower_cp tbl c =
     (if 0x41 \<le> c \<and> c \<le> 0x5A then [c + 0x20] else if c < 0x80 then [c] else tbl c)"

definition lower :: "(nat \<Rightarrow> pystr) \<Rightarrow> pystr \<Rightarrow> pystr" where
  "lower tbl s = concat (map (lower_cp tbl) s)"

text \<open>
  \<^verbatim>\<open>
  def guess_downloader(url: str) -> str:
      u = url.strip().lower()
      if "pixeldrain.com" in u:
          return "pixeldrain"
      if "drive.google.com" in u:
          return "gdrive"
      if "mega.nz" in u:
          return "mega"
      if "youtu" in u or "youtube.com" in u:
          return "youtube"
      return "unknown"
  \<close>
\<close>

definition guess_downloader :: "(nat \<Rightarrow> pystr) \<Rightarrow> pystr \<Rightarrow> pystr" where
  "guess_downloader tbl url =
     (let u = lower tbl (strip url) in
      if py_in (ascii ''pixeldrain.com'') u then ascii ''pixeldrain''
      else if py_in (ascii ''drive.google.com'') u then ascii ''gdrive''
      else if py_in (ascii ''mega.nz'') u then ascii ''mega''
      else if py_in (ascii ''youtu'') u \<or> py_in (ascii ''youtube.com'') u then ascii ''youtube''
      else ascii ''unknown'')"

section \<open>Paths and the disk\<close>

text \<open>
  A \<open>pathlib.Path\<close> is modelled by its list of components, read from one fixed origin.
  There are no symbolic links, and the component \<open>..\<close> is an ordinary name.
  Every path may be read, written and listed by the program, and nothing else changes
  the disk while the program runs.
\<close>

type_synonym path = "pystr list"

text \<open>\<open>s.split("/")\<close>\<close>

fun split_slash :: "pystr \<Rightarrow> pystr list" where
  "split_slash [] = [[]]"
| "split_slash (c # cs) =
     (if c = 0x2F then [] # split_slash cs
      else (case split_slash cs of [] \<Rightarrow> [[c]] | p # ps \<Rightarrow> (c # p) # ps))"

text \<open>The components of \<open>Path(s)\<close>: empty components and \<open>.\<close> are dropped.\<close>

definition path_parts :: "pystr \<Rightarrow> path" where
  "path_parts s = filter (\<lambda>p. p \<noteq> [] \<and> p \<noteq> ascii ''.'') (split_slash s)"

text \<open>\<open>p / s\<close> for a string \<open>s\<close> that does not start with a slash.\<close>

definition join :: "path \<Rightarrow> pystr \<Rightarrow> path" where
  "join p s = p @ path_parts s"

text \<open>\<open>p.parent\<close>, \<open>p.name\<close>, \<open>p.stem\<close> and \<open>str(p)\<close>\<close>

definition parent :: "path \<Rightarrow> path" where
  "parent p = butlast p"

definition name_of :: "path \<Rightarrow> pystr" where
  "name_of p = (if p = [] then [] else last p)"

text \<open>
  The stem is the name without its last suffix; a name has a suffix when its last dot is
  neither its first nor its last character.
\<close>

definition rfind_dot :: "pystr \<Rightarrow> nat option" where
  "rfind_dot s =
     (case filter (\<lambda>i. s ! i = 0x2E) (rev [0..<length s]) of [] \<Rightarrow> None | i # _ \<Rightarrow> Some i)"

definition stem :: "path \<Rightarrow> pystr" where
  "stem p =
     (let n = name_of p in
      case rfind_dot n of
        None \<Rightarrow> n
      | Some i \<Rightarrow> if 0 < i \<and> i < length n - 1 then take i n else n)"

fun join_slash :: "path \<Rightarrow> pystr" where
  "join_slash [] = []"
| "join_slash [x] = x"
| "join_slash (x # y # ys) = x @ [0x2F] @ join_slash (y # ys)"

text \<open>\<open>sub.relative_to(p)\<close> for a path \<open>sub\<close> that lies under \<open>p\<close>.\<close>

definition relative_to :: "path \<Rightarrow> path \<Rightarrow> path" where
  "relative_to sub p = drop (length p) sub"

text \<open>\<open>str(n)\<close> for an integer: decimal digits, with a minus sign when negative.\<close>

fun str_nat :: "nat \<Rightarrow> pystr" where
  "str_nat n = (if n < 10 then [0x30 + n] else str_nat (n div 10) @ [0x30 + n mod 10])"

definition str_int :: "int \<Rightarrow> pystr" where
  "str_int i = (if i < 0 then 0x2D # str_nat (nat (- i)) else str_nat (nat i))"

text \<open>
  The disk is a tree. A file holds its content, which is raw bytes or, for an archive
  written by \<open>zipfile\<close>, the list of its entries (archive name and content). A directory
  holds its modification time and its entries in listing order. Times are integers
  (microseconds), the resolution of \<open>datetime\<close>.
\<close>

datatype content = Bytes "nat list" | Archive "(pystr \<times> content) list"

datatype node = File content | Dir int "(pystr \<times> node) list"

datatype exn =
    FileTooLarge int int
  | NoDocumentFound
  | OutputFileNotFound
  | NewFilenameEmpty
  | NoImagesProvided
  | InvalidName
  | FileExistsError
  | FileNotFoundError
  | NotADirectoryError
  | IsADirectoryError
  | ValueError
  | OverflowError
  | External nat

fun lookup :: "node \<Rightarrow> path \<Rightarrow> node option" where
  "lookup n [] = Some n"
| "lookup (File c) (x # xs) = None"
| "lookup (Dir m es) (x # xs) =
     (case map_of es x of None \<Rightarrow> None | Some n \<Rightarrow> lookup n xs)"

definition exists :: "node \<Rightarrow> path \<Rightarrow> bool" where
  "exists d p = (lookup d p \<noteq> None)"

definition is_dir :: "node \<Rightarrow> path \<Rightarrow> bool" where
  "is_dir d p = (case lookup d p of Some (Dir m es) \<Rightarrow> True | _ \<Rightarrow> False)"

definition is_file :: "node \<Rightarrow> path \<Rightarrow> bool" where
  "is_file d p = (case lookup d p of Some (File c) \<Rightarrow> True | _ \<Rightarrow> False)"

text \<open>
  \<open>p.mkdir(parents=True, exist_ok=True)\<close> at time \<open>t\<close>: missing directories are
  created along the path; a file on the way is an error.
\<close>

fun mkdirs :: "int \<Rightarrow> path \<Rightarrow> node \<Rightarrow> exn + node" where
  "mkdirs t [] (File c) = Inl FileExistsError"
| "mkdirs t [] (Dir m es) = Inr (Dir m es)"
| "mkdirs t (x # xs) (File c) = Inl NotADirectoryError"
| "mkdirs t (x # xs) (Dir m es) =
     (case map_of es x of
        None \<Rightarrow>
          (case mkdirs t xs (Dir t []) of
             Inl e \<Rightarrow> Inl e
           | Inr n \<Rightarrow> Inr (Dir t (es @ [(x, n)])))
      | Some n \<Rightarrow>
          (case mkdirs t xs n of
             Inl e \<Rightarrow> Inl e
           | Inr n' \<Rightarrow> Inr (Dir m (AList.update x n' es))))"

text \<open>Opening \<open>p\<close> for writing and storing content \<open>c\<close> in it.\<close>

fun write_file :: "int \<Rightarrow> path \<Rightarrow> content \<Rightarrow> node \<Rightarrow> exn + node" where
  "write_file t [] c n = Inl IsADirectoryError"
| "write_file t (x # xs) c (File c') = Inl NotADirectoryError"
| "write_file t [x] c (Dir m es) =
     (case map_of es x of
        None \<Rightarrow> Inr (Dir t (es @ [(x, File c)]))
      | Some (File c') \<Rightarrow> Inr (Dir m (AList.update x (File c) es))
      | Some (Dir m' es') \<Rightarrow> Inl IsADirectoryError)"
| "write_file t (x # y # ys) c (Dir m es) =
     (case map_of es x of
        None \<Rightarrow> Inl FileNotFoundError
      | Some n \<Rightarrow>
          (case write_file t (y # ys) c n of
             Inl e \<Rightarrow> Inl e
           | Inr n' \<Rightarrow> Inr (Dir m (AList.update x n' es))))"

text \<open>
  Every entry below a node, with its path, each entry of a directory followed by what
  lies below it. The files of a disk are read off this list.
\<close>

fun below :: "path \<Rightarrow> node \<Rightarrow> (path \<times> node) list" where
  "below p (File c) = []"
| "below p (Dir m es) =
     concat (map (\<lambda>e. (p @ [fst e], snd e) # below (p @ [fst e]) (snd e)) es)"

text \<open>
  \<open>p.rglob("*")\<close>, as \<open>pathlib\<close> runs the pattern \<open>**/*\<close>: it walks the directories at
  and below \<open>p\<close>, a directory before the directories inside it and these in listing
  order, and at each directory of the walk it yields all the entries of that directory,
  in listing order, before it goes on to the next directory. The pattern \<open>*\<close> leaves no
  name out. The order in which the operating system lists a directory is the order of
  its entries in the model.
\<close>

fun iterate_directories :: "path \<Rightarrow> node \<Rightarrow> (path \<times> node) list" where
  "iterate_directories p (File c) = []"
| "iterate_directories p (Dir m es) =
     (p, Dir m es) # concat (map (\<lambda>e. iterate_directories (p @ [fst e]) (snd e)) es)"

definition children :: "path \<times> node \<Rightarrow> (path \<times> node) list" where
  "children pn =
     (case snd pn of File c \<Rightarrow> [] | Dir m es \<Rightarrow> map (\<lambda>e. (fst pn @ [fst e], snd e)) es)"

definition rglob :: "node \<Rightarrow> path \<Rightarrow> (path \<times> node) list" where
  "rglob d p =
     (case lookup d p of
        None \<Rightarrow> []
      | Some n \<Rightarrow> concat (map children (iterate_directories p n)))"

text \<open>The files of a disk, with their paths: what is on it apart from directories.\<close>

definition file_entries :: "(path \<times> node) list \<Rightarrow> (path \<times> content) list" where
  "file_entries ns = concat (map (\<lambda>(p, n). case n of File c \<Rightarrow> [(p, c)] | Dir m es \<Rightarrow> []) ns)"

definition files :: "node \<Rightarrow> (path \<times> content) list" where
  "files d = file_entries (below [] d)"

section \<open>Session state, events and effects\<close>

text \<open>
  config.py: the settings. The token plays no part in the handlers; the base directory
  is kept as the path it denotes.
\<close>

record settings =
  base_dir :: path
  max_telegram_file_mb :: int
  max_text_len :: int

text \<open>
  The session record \<open>{"menu": ..., "action": ...}\<close> plus the optional key
  \<open>rename_path\<close>. The menu and action names are the string constants of the source:
  \<open>"main"\<close>, \<open>"file"\<close>, \<open>"dl"\<close>, \<open>"proxy"\<close> and \<open>"proxy_wait"\<close>, \<open>"zip_wait_file"\<close>,
  \<open>"unzip_wait_zip"\<close>, \<open>"rename_wait_file"\<close>, \<open>"rename_wait_newname"\<close>,
  \<open>"text2pdf_wait_text"\<close>, \<open>"img2pdf_collect"\<close>, \<open>"merge_collect"\<close> and
  \<open>"dl_wait_link_" + mode\<close>.
\<close>

datatype menu = Main_menu | File_menu | Dl_menu | Proxy_menu

datatype dl_mode = Auto | Yt | Gdrive | Mega | Pixeldrain

datatype action =
    Proxy_wait
  | Zip_wait_file
  | Unzip_wait_zip
  | Rename_wait_file
  | Rename_wait_newname
  | Text2pdf_wait_text
  | Img2pdf_collect
  | Merge_collect
  | Dl_wait_link dl_mode

record session =
  menu :: menu
  action :: "action option"
  rename_path :: "path option"

text \<open>What the transport delivers: a message (text or one document) or a button press.\<close>

record document =
  file_id :: pystr
  file_name :: "pystr option"
  file_size :: "int option"

record message =
  from_user :: int
  chat :: int
  msg_text :: "pystr option"
  msg_document :: "document option"

record callback_query =
  cq_from_user :: int
  cq_chat :: int
  cq_data :: pystr

text \<open>
  The keyboards and the texts sent to the user. A text is recorded by its ASCII part
  (emoji and typographic signs of the source are left out); the formatted ones carry
  their arguments.
\<close>

datatype keyboard =
  No_kb | Main_menu_kb | File_menu_kb | Dl_menu_kb | Proxy_menu_kb | Merge_controls_kb
  | Imgpdf_controls_kb

datatype notice =
    Txt string
  | Added_total nat
  | Current_proxy "pystr option"
  | Text_too_long int
  | Rename_failed exn
  | Download_failed exn

text \<open>
  Every call that leaves the program is recorded: the calls of the chat transport, and
  the calls of the libraries and of the operating system that read or write the disk.
\<close>

datatype effect =
    Answer int notice keyboard
  | Reply int notice keyboard
  | Edit_text int notice keyboard
  | Callback_answer int
  | Send_document int path string
  | Tg_download pystr path
  | Extract_all path path
  | Render_text_pdf pystr path
  | Image_open path
  | Image_save "path list" path
  | Merger_append path
  | Merger_write path
  | Merger_close
  | Os_rename path path
  | Rmtree path
  | Retrieve dl_mode pystr path "pystr option"

record world =
  USER_STATE :: "int \<rightharpoonup> session"
  USER_PROXY :: "int \<rightharpoonup> pystr"
  MERGE_BUCKET :: "int \<rightharpoonup> path list"
  IMG_BUCKET :: "int \<rightharpoonup> path list"
  disk :: node
  trace :: "effect list"

text \<open>
  The environment answers the calls. It sees the calls made so far, the last being the
  one it answers. A transport call succeeds or raises; a library call raises or returns
  a path and the disk as the call leaves it; \<open>shutil.rmtree(ignore_errors=True)\<close>
  never raises and may leave a remnant of the tree behind; the clock is read at each
  \<open>datetime.now()\<close> and when a directory entry is made.
\<close>

record env =
  transport :: "effect list \<Rightarrow> exn option"
  library :: "effect list \<Rightarrow> node \<Rightarrow> exn + path \<times> node"
  rmtree_remnant :: "effect list \<Rightarrow> node \<Rightarrow> node option"
  clock :: "effect list \<Rightarrow> int"

text \<open>
  A handler is a function of the world that returns normally or raises, and leaves a
  world behind in both cases.
\<close>

type_synonym 'a prog = "world \<Rightarrow> (exn + 'a) \<times> world"

definition ret :: "'a \<Rightarrow> 'a prog" where
  "ret x w = (Inr x, w)"

definition raise :: "exn \<Rightarrow> 'a prog" where
  "raise e w = (Inl e, w)"

definition bind :: "'a prog \<Rightarrow> ('a \<Rightarrow> 'b prog) \<Rightarrow> 'b prog" where
  "bind m f w = (case m w of (Inl e, w') \<Rightarrow> (Inl e, w') | (Inr x, w') \<Rightarrow> f x w')"

definition seq :: "unit prog \<Rightarrow> 'a prog \<Rightarrow> 'a prog" where
  "seq m n = bind m (\<lambda>_. n)"

text \<open>A block of statements, run in order.\<close>

fun block :: "unit prog list \<Rightarrow> unit prog" where
  "block [] = ret ()"
| "block (m # ms) = seq m (block ms)"

text \<open>\<open>try: m finally: fin\<close> and \<open>try: m except Exception as e: h e\<close>\<close>

definition try_finally :: "'a prog \<Rightarrow> unit prog \<Rightarrow> 'a prog" where
  "try_finally m fin w =
     (case m w of (r, w') \<Rightarrow>
        (case fin w' of (Inl e, w'') \<Rightarrow> (Inl e, w'') | (Inr u, w'') \<Rightarrow> (r, w'')))"

definition try_except :: "'a prog \<Rightarrow> (exn \<Rightarrow> 'a prog) \<Rightarrow> 'a prog" where
  "try_except m h w = (case m w of (Inl e, w') \<Rightarrow> h e w' | (Inr x, w') \<Rightarrow> (Inr x, w'))"

definition modify :: "(world \<Rightarrow> world) \<Rightarrow> unit prog" where
  "modify f w = (Inr (), f w)"

text \<open>The three kinds of outside call.\<close>

definition tg :: "env \<Rightarrow> effect \<Rightarrow> unit prog" where
  "tg E c w =
     (let w' = w\<lparr>trace := trace w @ [c]\<rparr> in
      case transport E (trace w') of None \<Rightarrow> (Inr (), w') | Some e \<Rightarrow> (Inl e, w'))"

definition lib :: "env \<Rightarrow> effect \<Rightarrow> path prog" where
  "lib E c w =
     (let w' = w\<lparr>trace := trace w @ [c]\<rparr> in
      case library E (trace w') (disk w') of
        Inl e \<Rightarrow> (Inl e, w')
      | Inr (p, d) \<Rightarrow> (Inr p, w'\<lparr>disk := d\<rparr>))"

definition lib_unit :: "env \<Rightarrow> effect \<Rightarrow> unit prog" where
  "lib_unit E c = bind (lib E c) (\<lambda>_. ret ())"

text \<open>A disk operation of the model, run on the disk of the world.\<close>

definition on_disk :: "(node \<Rightarrow> exn + node) \<Rightarrow> unit prog" where
  "on_disk f w = (case f (disk w) of Inl e \<Rightarrow> (Inl e, w) | Inr d \<Rightarrow> (Inr (), w\<lparr>disk := d\<rparr>))"

definition message_answer :: "env \<Rightarrow> message \<Rightarrow> notice \<Rightarrow> keyboard \<Rightarrow> unit prog" where
  "message_answer E m n kb = tg E (Answer (chat m) n kb)"

definition message_reply :: "env \<Rightarrow> message \<Rightarrow> notice \<Rightarrow> keyboard \<Rightarrow> unit prog" where
  "message_reply E m n kb = tg E (Reply (chat m) n kb)"

section \<open>bot.py: the session maps\<close>

text \<open>
  \<^verbatim>\<open>
  def set_state(user_id, menu, action, extra=None):
      st = {"menu": menu, "action": action}
      if extra:
          st.update(extra)
      USER_STATE[user_id] = st

  def get_state(user_id):
      return USER_STATE.get(user_id, {"menu": "main", "action": None})
  \<close>
\<close>

definition set_state :: "int \<Rightarrow> menu \<Rightarrow> action option \<Rightarrow> path option \<Rightarrow> unit prog" where
  "set_state user_id mn act extra =
     modify (\<lambda>w. w\<lparr>USER_STATE := (USER_STATE w)
       (user_id \<mapsto> \<lparr>menu = mn, action = act, rename_path = extra\<rparr>)\<rparr>)"

definition get_state :: "world \<Rightarrow> int \<Rightarrow> session" where
  "get_state w user_id =
     (case USER_STATE w user_id of
        None \<Rightarrow> \<lparr>menu = Main_menu, action = None, rename_path = None\<rparr>
      | Some st \<Rightarrow> st)"

definition user_proxy :: "world \<Rightarrow> int \<Rightarrow> pystr option" where
  "user_proxy w user_id = USER_PROXY w user_id"

section \<open>storage.py\<close>

text \<open>
  \<^verbatim>\<open>
  def ensure_dir(p):
      p.mkdir(parents=True, exist_ok=True)
      return p
  def user_dir(base, user_id):
      return ensure_dir(Path(base) / str(user_id))
  def work_dir(base, user_id):
      return ensure_dir(user_dir(base, user_id) / "work")
  \<close>
  and likewise \<open>downloads_dir\<close> and \<open>output_dir\<close>.
\<close>

definition mkdir_parents :: "env \<Rightarrow> path \<Rightarrow> unit prog" where
  "mkdir_parents E p w = on_disk (mkdirs (clock E (trace w)) p) w"

definition ensure_dir :: "env \<Rightarrow> path \<Rightarrow> path prog" where
  "ensure_dir E p = seq (mkdir_parents E p) (ret p)"

definition user_dir :: "env \<Rightarrow> path \<Rightarrow> int \<Rightarrow> path prog" where
  "user_dir E base user_id = ensure_dir E (join base (str_int user_id))"

definition work_dir :: "env \<Rightarrow> path \<Rightarrow> int \<Rightarrow> path prog" where
  "work_dir E base user_id =
     bind (user_dir E base user_id) (\<lambda>u. ensure_dir E (join u (ascii ''work'')))"

definition downloads_dir :: "env \<Rightarrow> path \<Rightarrow> int \<Rightarrow> path prog" where
  "downloads_dir E base user_id =
     bind (user_dir E base user_id) (\<lambda>u. ensure_dir E (join u (ascii ''downloads'')))"

definition output_dir :: "env \<Rightarrow> path \<Rightarrow> int \<Rightarrow> path prog" where
  "output_dir E base user_id =
     bind (user_dir E base user_id) (\<lambda>u. ensure_dir E (join u (ascii ''output'')))"

text \<open>
  \<^verbatim>\<open>
  def cleanup_old(base, older_than_hours=24):
      base_path = Path(base)
      if not base_path.exists():
          return 0
      cutoff = datetime.now() - timedelta(hours=older_than_hours)
      deleted = 0
      for child in base_path.iterdir():
          if not child.is_dir():
              continue
          mtime = datetime.fromtimestamp(child.stat().st_mtime)
          if mtime < cutoff:
              shutil.rmtree(child, ignore_errors=True)
              deleted += 1
      return deleted
  \<close>
\<close>

text \<open>
  Putting node \<open>r\<close> in the place of the entry at a path, or removing the entry when
  \<open>r\<close> is \<open>None\<close>; removing an entry sets the modification time of its directory.
\<close>

fun put_entry :: "int \<Rightarrow> path \<Rightarrow> node option \<Rightarrow> node \<Rightarrow> node" where
  "put_entry t [] r n = (case r of None \<Rightarrow> n | Some n' \<Rightarrow> n')"
| "put_entry t (x # xs) r (File c) = File c"
| "put_entry t [x] r (Dir m es) =
     (case r of
        None \<Rightarrow> Dir t (AList.delete x es)
      | Some n' \<Rightarrow> Dir m (AList.update x n' es))"
| "put_entry t (x # y # ys) r (Dir m es) =
     (case map_of es x of
        None \<Rightarrow> Dir m es
      | Some n \<Rightarrow> Dir m (AList.update x (put_entry t (y # ys) r n) es))"

text \<open>
  \<open>shutil.rmtree(child, ignore_errors=True)\<close>: the call is recorded and never raises;
  the tree is removed, or the environment leaves a remnant of it in place.
\<close>

definition rmtree :: "env \<Rightarrow> path \<Rightarrow> unit prog" where
  "rmtree E child w =
     (let w' = w\<lparr>trace := trace w @ [Rmtree child]\<rparr> in
      case lookup (disk w') child of
        None \<Rightarrow> (Inr (), w')
      | Some n \<Rightarrow>
          (Inr (), w'\<lparr>disk := put_entry (clock E (trace w')) child
                                (rmtree_remnant E (trace w') n) (disk w')\<rparr>))"

text \<open>
  A \<open>datetime\<close> is the number of microseconds on the local wall clock, counted from the
  reading it has at the epoch; it ranges over the years 1 to 9999. The times on the disk
  are kept on the same scale, so that \<open>datetime.fromtimestamp\<close> only checks the range:
  a timestamp outside it raises (\<open>ValueError\<close>; \<open>OSError\<close> or \<open>OverflowError\<close> when the
  platform cannot convert it at all, which the model does not tell apart). The
  conversion also reads the clock one day before the timestamp, to find out whether the
  hour is a repeated one, so that the first day of the year 1 is out of its range too.
  \<open>timedelta(hours=h)\<close> raises \<open>OverflowError\<close> when it spans more than 999999999 days,
  and so does a subtraction whose result is no \<open>datetime\<close>.
\<close>

definition datetime_min :: int where
  "datetime_min = - 62135596800000000"

definition datetime_max :: int where
  "datetime_max = 253402300799999999"

definition representable :: "int \<Rightarrow> bool" where
  "representable t = (datetime_min \<le> t \<and> t \<le> datetime_max)"

definition convertible :: "int \<Rightarrow> bool" where
  "convertible t = (datetime_min + 86400000000 \<le> t \<and> t \<le> datetime_max)"

definition fromtimestamp :: "int \<Rightarrow> exn + int" where
  "fromtimestamp t = (if convertible t then Inr t else Inl ValueError)"

definition timedelta_hours :: "int \<Rightarrow> exn + int" where
  "timedelta_hours h =
     (if - 999999999 \<le> h div 24 \<and> h div 24 \<le> 999999999 then Inr (h * 3600000000)
      else Inl OverflowError)"

definition datetime_sub :: "int \<Rightarrow> int \<Rightarrow> exn + int" where
  "datetime_sub t td = (if representable (t - td) then Inr (t - td) else Inl OverflowError)"

text \<open>\<open>now - timedelta(hours=older_than_hours)\<close>\<close>

definition cutoff_of :: "int \<Rightarrow> int \<Rightarrow> exn + int" where
  "cutoff_of now older_than_hours =
     (case timedelta_hours older_than_hours of
        Inl e \<Rightarrow> Inl e
      | Inr td \<Rightarrow> datetime_sub now td)"

text \<open>\<open>child.stat().st_mtime\<close>, asked of directories only.\<close>

definition mtime_of :: "node \<Rightarrow> path \<Rightarrow> int" where
  "mtime_of d p = (case lookup d p of Some (Dir m es) \<Rightarrow> m | _ \<Rightarrow> 0)"

text \<open>The loop, over the names that \<open>iterdir\<close> listed, with the counter \<open>deleted\<close>.\<close>

fun cleanup_loop :: "env \<Rightarrow> path \<Rightarrow> int \<Rightarrow> pystr list \<Rightarrow> int \<Rightarrow> int prog" where
  "cleanup_loop E base cutoff [] deleted w = (Inr deleted, w)"
| "cleanup_loop E base cutoff (x # xs) deleted w =
     (let child = base @ [x] in
      if \<not> is_dir (disk w) child then cleanup_loop E base cutoff xs deleted w
      else
        case fromtimestamp (mtime_of (disk w) child) of
          Inl e \<Rightarrow> (Inl e, w)
        | Inr mtime \<Rightarrow>
            if mtime < cutoff then
              cleanup_loop E base cutoff xs (deleted + 1) (snd (rmtree E child w))
            else cleanup_loop E base cutoff xs deleted w)"

definition cleanup_old :: "env \<Rightarrow> path \<Rightarrow> int \<Rightarrow> int prog" where
  "cleanup_old E base older_than_hours w =
     (if \<not> exists (disk w) base then (Inr 0, w)
      else
        case cutoff_of (clock E (trace w)) older_than_hours of
          Inl e \<Rightarrow> (Inl e, w)
        | Inr cutoff \<Rightarrow>
            (case lookup (disk w) base of
               Some (Dir m es) \<Rightarrow> cleanup_loop E base cutoff (map fst es) 0 w
             | _ \<Rightarrow> (Inl NotADirectoryError, w)))"

section \<open>utils.py\<close>

text \<open>
  \<^verbatim>\<open>
  def is_zip(path):
      try:
          return zipfile.is_zipfile(path)
      except Exception:
          return False
  \<close>
\<close>

definition is_zip :: "node \<Rightarrow> path \<Rightarrow> bool" where
  "is_zip d p = (case lookup d p of Some (File (Archive es)) \<Rightarrow> True | _ \<Rightarrow> False)"

text \<open>
  \<^verbatim>\<open>
  def zip_paths(paths, out_zip):
      out_zip.parent.mkdir(parents=True, exist_ok=True)
      with zipfile.ZipFile(out_zip, "w", zipfile.ZIP_DEFLATED) as zf:
          for p in paths:
              if p.is_dir():
                  for sub in p.rglob("*"):
                      if sub.is_file():
                          arc = str(sub.relative_to(p.parent))
                          zf.write(sub, arcname=arc)
              else:
                  zf.write(p, arcname=p.name)
      return out_zip
  \<close>
  Opening the \<open>ZipFile\<close> creates the archive, empty; \<open>zf.write\<close> reads the source from
  the disk and adds one entry to the archive, which is kept at \<open>out_zip\<close> while it is
  written (a directory would be stored as an empty entry whose name ends in a slash);
  a source that does not exist raises. The entries below a directory are listed when
  its loop starts; the loop writes to the archive only, so the listing is the one that
  \<open>rglob\<close> yields step by step, unless the archive itself lies below the directory.
\<close>

definition zf_write :: "env \<Rightarrow> path \<Rightarrow> path \<Rightarrow> pystr \<Rightarrow> unit prog" where
  "zf_write E out_zip src arc w =
     (case lookup (disk w) src of
        None \<Rightarrow> (Inl FileNotFoundError, w)
      | Some n \<Rightarrow>
          (let entry = (case n of File c \<Rightarrow> (arc, c) | Dir m es \<Rightarrow> (arc @ [0x2F], Bytes []));
               old = (case lookup (disk w) out_zip of Some (File (Archive es)) \<Rightarrow> es | _ \<Rightarrow> [])
           in on_disk (write_file (clock E (trace w)) out_zip (Archive (old @ [entry]))) w))"

definition for_each :: "'a list \<Rightarrow> ('a \<Rightarrow> unit prog) \<Rightarrow> unit prog" where
  "for_each xs f = block (map f xs)"

definition zip_one :: "env \<Rightarrow> path \<Rightarrow> path \<Rightarrow> unit prog" where
  "zip_one E out_zip p w =
     (if is_dir (disk w) p then
        for_each (filter (\<lambda>sub. is_file (disk w) sub) (map fst (rglob (disk w) p)))
          (\<lambda>sub. zf_write E out_zip sub (join_slash (relative_to sub (parent p)))) w
      else zf_write E out_zip p (name_of p) w)"

definition zip_paths :: "env \<Rightarrow> path list \<Rightarrow> path \<Rightarrow> path prog" where
  "zip_paths E paths out_zip =
     seq (mkdir_parents E (parent out_zip))
    (seq (\<lambda>w. on_disk (write_file (clock E (trace w)) out_zip (Archive [])) w)
    (seq (for_each paths (zip_one E out_zip))
         (ret out_zip)))"

text \<open>
  The other transformations create the parent directory of the output and call the
  library, which reads and writes the disk.
  \<^verbatim>\<open>
  def unzip_to_dir(zip_path, out_dir):
      out_dir.mkdir(parents=True, exist_ok=True)
      with zipfile.ZipFile(zip_path, "r") as zf:
          zf.extractall(out_dir)
      return out_dir
  \<close>
\<close>

definition unzip_to_dir :: "env \<Rightarrow> path \<Rightarrow> path \<Rightarrow> path prog" where
  "unzip_to_dir E zip_path out_dir =
     seq (mkdir_parents E out_dir)
    (seq (lib_unit E (Extract_all zip_path out_dir))
         (ret out_dir))"

text \<open>
  \<open>text_to_pdf\<close> lays the lines out on a canvas and saves it; the drawing is one call
  of the library here.
\<close>

definition text_to_pdf :: "env \<Rightarrow> pystr \<Rightarrow> path \<Rightarrow> path prog" where
  "text_to_pdf E txt out_pdf =
     seq (mkdir_parents E (parent out_pdf))
    (seq (lib_unit E (Render_text_pdf txt out_pdf))
         (ret out_pdf))"

text \<open>
  \<^verbatim>\<open>
  def images_to_pdf(image_paths, out_pdf):
      out_pdf.parent.mkdir(parents=True, exist_ok=True)
      imgs = []
      for p in image_paths:
          img = Image.open(p)
          ... img = img.convert("RGB")
          imgs.append(img)
      if not imgs:
          raise ValueError("No images provided")
      first, rest = imgs[0], imgs[1:]
      first.save(out_pdf, save_all=True, append_images=rest)
      return out_pdf
  \<close>
\<close>

definition images_to_pdf :: "env \<Rightarrow> path list \<Rightarrow> path \<Rightarrow> path prog" where
  "images_to_pdf E image_paths out_pdf =
     seq (mkdir_parents E (parent out_pdf))
    (seq (for_each image_paths (\<lambda>p. lib_unit E (Image_open p)))
    (seq (if image_paths = [] then raise NoImagesProvided else ret ())
    (seq (lib_unit E (Image_save image_paths out_pdf))
         (ret out_pdf))))"

text \<open>
  \<^verbatim>\<open>
  def merge_pdfs(pdf_paths, out_pdf):
      out_pdf.parent.mkdir(parents=True, exist_ok=True)
      merger = PdfMerger()
      try:
          for p in pdf_paths:
              merger.append(str(p))
          merger.write(str(out_pdf))
      finally:
          merger.close()
      return out_pdf
  \<close>
\<close>

definition merge_pdfs :: "env \<Rightarrow> path list \<Rightarrow> path \<Rightarrow> path prog" where
  "merge_pdfs E pdf_paths out_pdf =
     seq (mkdir_parents E (parent out_pdf))
    (seq (try_finally
            (seq (for_each pdf_paths (\<lambda>p. lib_unit E (Merger_append p)))
                 (lib_unit E (Merger_write out_pdf)))
            (lib_unit E Merger_close))
         (ret out_pdf))"

text \<open>
  \<^verbatim>\<open>
  def detect_content_type_from_name(name):
      name_l = name.lower().strip()
      ext = Path(name_l).suffix
      if ext == ".pdf": return ("pdf", ext)
      if ext == ".zip": return ("zip", ext)
      if ext in (".jpg", ".jpeg", ".png", ".webp", ".bmp", ".tiff"): return ("image", ext)
      if ext in (".txt", ".log", ".md", ".csv"): return ("text", ext)
      return ("unknown", ext)
  \<close>
\<close>

definition suffix_of :: "path \<Rightarrow> pystr" where
  "suffix_of p =
     (let n = name_of p in
      case rfind_dot n of
        None \<Rightarrow> []
      | Some i \<Rightarrow> if 0 < i \<and> i < length n - 1 then drop i n else [])"

definition detect_content_type_from_name :: "(nat \<Rightarrow> pystr) \<Rightarrow> pystr \<Rightarrow> pystr \<times> pystr" where
  "detect_content_type_from_name tbl name =
     (let name_l = strip (lower tbl name);
          ext = suffix_of (path_parts name_l)
      in if ext = ascii ''.pdf'' then (ascii ''pdf'', ext)
         else if ext = ascii ''.zip'' then (ascii ''zip'', ext)
         else if ext \<in> set (map ascii [''.jpg'', ''.jpeg'', ''.png'', ''.webp'', ''.bmp'', ''.tiff''])
           then (ascii ''image'', ext)
         else if ext \<in> set (map ascii [''.txt'', ''.log'', ''.md'', ''.csv''])
           then (ascii ''text'', ext)
         else (ascii ''unknown'', ext))"

section \<open>features\_file.py\<close>

text \<open>
  \<open>do_zip\<close>, \<open>do_unzip\<close>, \<open>do_text_to_pdf\<close>, \<open>do_images_to_pdf\<close> and \<open>do_merge_pdfs\<close>
  pass their arguments on to the functions of utils.py.
  \<^verbatim>\<open>
  def do_rename(file_path, new_name):
      new_name = safe_filename(new_name)
      if not new_name:
          raise ValueError("New filename is empty.")
      target = file_path.with_name(new_name)
      file_path.rename(target)
      return target
  \<close>
  \<open>with_name\<close> raises when the path has no name or the new name is not one component.
\<close>

definition do_zip :: "env \<Rightarrow> path list \<Rightarrow> path \<Rightarrow> path prog" where
  "do_zip E input_paths out_zip = zip_paths E input_paths out_zip"

definition do_unzip :: "env \<Rightarrow> path \<Rightarrow> path \<Rightarrow> path prog" where
  "do_unzip E zip_file out_dir = unzip_to_dir E zip_file out_dir"

definition do_text_to_pdf :: "env \<Rightarrow> pystr \<Rightarrow> path \<Rightarrow> path prog" where
  "do_text_to_pdf E txt out_pdf = text_to_pdf E txt out_pdf"

definition do_images_to_pdf :: "env \<Rightarrow> path list \<Rightarrow> path \<Rightarrow> path prog" where
  "do_images_to_pdf E images out_pdf = images_to_pdf E images out_pdf"

definition do_merge_pdfs :: "env \<Rightarrow> path list \<Rightarrow> path \<Rightarrow> path prog" where
  "do_merge_pdfs E pdfs out_pdf = merge_pdfs E pdfs out_pdf"

definition with_name :: "path \<Rightarrow> pystr \<Rightarrow> exn + path" where
  "with_name p new_name =
     (if name_of p = [] then Inl InvalidName
      else if new_name = [] \<or> last new_name = 0x2F \<or> hd new_name = 0x2F
              \<or> length (path_parts new_name) \<noteq> 1 then Inl InvalidName
      else Inr (butlast p @ [new_name]))"

definition do_rename :: "env \<Rightarrow> path \<Rightarrow> pystr \<Rightarrow> path prog" where
  "do_rename E file_path new_name =
     (let new_name' = safe_filename new_name in
      if new_name' = [] then raise NewFilenameEmpty
      else
        (case with_name file_path new_name' of
           Inl e \<Rightarrow> raise e
         | Inr target \<Rightarrow> seq (lib_unit E (Os_rename file_path target)) (ret target)))"

section \<open>bot.py: helpers\<close>

text \<open>
  \<^verbatim>\<open>
  async def download_telegram_file(message, dest):
      dest.parent.mkdir(parents=True, exist_ok=True)
      file = message.document
      if not file:
          raise ValueError("No document found.")
      max_bytes = settings.max_telegram_file_mb * 1024 * 1024
      if file.file_size and file.file_size > max_bytes:
          raise ValueError(f"File too large: ...")
      tg_file = await bot.get_file(file.file_id)
      await bot.download_file(tg_file.file_path, destination=str(dest))
      return dest
  \<close>
  The two transport calls that fetch the file are the one call \<open>Tg_download\<close>.
\<close>

definition download_telegram_file :: "settings \<Rightarrow> env \<Rightarrow> message \<Rightarrow> path \<Rightarrow> path prog" where
  "download_telegram_file S E m dest =
     seq (mkdir_parents E (parent dest))
       (case msg_document m of
          None \<Rightarrow> raise NoDocumentFound
        | Some file \<Rightarrow>
            (let max_bytes = max_telegram_file_mb S * 1024 * 1024 in
             if (case file_size file of None \<Rightarrow> False | Some n \<Rightarrow> n \<noteq> 0 \<and> n > max_bytes)
             then raise (FileTooLarge (the (file_size file)) (max_telegram_file_mb S))
             else seq (lib_unit E (Tg_download (file_id file) dest)) (ret dest)))"

text \<open>
  \<^verbatim>\<open>
  async def send_file(chat_id, path, caption=""):
      if not path.exists():
          raise ValueError("Output file not found.")
      await bot.send_document(chat_id, FSInputFile(str(path)), caption=caption[:900])
  \<close>
\<close>

definition send_file :: "env \<Rightarrow> int \<Rightarrow> path \<Rightarrow> string \<Rightarrow> unit prog" where
  "send_file E chat_id p caption w =
     (if \<not> exists (disk w) p then (Inl OutputFileNotFound, w)
      else tg E (Send_document chat_id p (take 900 caption)) w)"

text \<open>\<open>q.data.split(":", 1)[1]\<close>, for data that contains a colon.\<close>

definition after_colon :: "pystr \<Rightarrow> pystr" where
  "after_colon d = drop 1 (dropWhile (\<lambda>c. c \<noteq> 0x3A) d)"

section \<open>bot.py: start and the callback handlers\<close>

definition start :: "settings \<Rightarrow> env \<Rightarrow> message \<Rightarrow> unit prog" where
  "start S E m =
     seq (bind (cleanup_old E (base_dir S) 24) (\<lambda>_. ret ()))
    (seq (set_state (from_user m) Main_menu None None)
         (message_answer E m (Txt ''Choose an option:'') Main_menu_kb))"

definition menu_nav :: "env \<Rightarrow> callback_query \<Rightarrow> unit prog" where
  "menu_nav E q =
     (let user_id = cq_from_user q; cmd = after_colon (cq_data q) in
      seq (if cmd = ascii ''file'' then
             seq (set_state user_id File_menu None None)
                 (tg E (Edit_text (cq_chat q) (Txt ''File management:'') File_menu_kb))
           else if cmd = ascii ''dl'' then
             seq (set_state user_id Dl_menu None None)
                 (tg E (Edit_text (cq_chat q) (Txt ''Downloader:'') Dl_menu_kb))
           else if cmd = ascii ''proxy'' then
             seq (set_state user_id Proxy_menu None None)
                 (tg E (Edit_text (cq_chat q) (Txt ''Proxies (optional):'') Proxy_menu_kb))
           else
             seq (set_state user_id Main_menu None None)
                 (tg E (Edit_text (cq_chat q) (Txt ''Choose an option:'') Main_menu_kb)))
          (tg E (Callback_answer user_id)))"

definition proxy_actions :: "env \<Rightarrow> callback_query \<Rightarrow> unit prog" where
  "proxy_actions E q =
     (let user_id = cq_from_user q; act = after_colon (cq_data q) in
      seq (if act = ascii ''set'' then
             seq (set_state user_id Proxy_menu (Some Proxy_wait) None)
                 (tg E (Answer (cq_chat q) (Txt ''Send your proxy in one line.'') No_kb))
           else if act = ascii ''clear'' then
             seq (modify (\<lambda>w. w\<lparr>USER_PROXY := (USER_PROXY w)(user_id := None)\<rparr>))
                 (tg E (Answer (cq_chat q) (Txt ''Proxy cleared.'') No_kb))
           else if act = ascii ''show'' then
             (\<lambda>w. tg E (Answer (cq_chat q) (Current_proxy (USER_PROXY w user_id)) No_kb) w)
           else ret ())
          (tg E (Callback_answer user_id)))"

definition file_actions :: "env \<Rightarrow> callback_query \<Rightarrow> unit prog" where
  "file_actions E q =
     (let user_id = cq_from_user q; act = after_colon (cq_data q) in
      seq (if act = ascii ''zip'' then
             seq (set_state user_id File_menu (Some Zip_wait_file) None)
                 (tg E (Answer (cq_chat q) (Txt ''Send ONE file (or a ZIP).'') No_kb))
           else if act = ascii ''unzip'' then
             seq (set_state user_id File_menu (Some Unzip_wait_zip) None)
                 (tg E (Answer (cq_chat q) (Txt ''Send a .zip file to unzip.'') No_kb))
           else if act = ascii ''rename'' then
             seq (set_state user_id File_menu (Some Rename_wait_file) None)
                 (tg E (Answer (cq_chat q) (Txt ''Send the file you want to rename.'') No_kb))
           else if act = ascii ''text2pdf'' then
             seq (set_state user_id File_menu (Some Text2pdf_wait_text) None)
                 (tg E (Answer (cq_chat q) (Txt ''Send the text (message) to convert into PDF.'') No_kb))
           else if act = ascii ''img2pdf'' then
             seq (modify (\<lambda>w. w\<lparr>IMG_BUCKET := (IMG_BUCKET w)(user_id \<mapsto> [])\<rparr>))
            (seq (set_state user_id File_menu (Some Img2pdf_collect) None)
                 (tg E (Answer (cq_chat q) (Txt ''Send image files (jpg/png/etc).'') Imgpdf_controls_kb)))
           else if act = ascii ''mergepdf'' then
             seq (modify (\<lambda>w. w\<lparr>MERGE_BUCKET := (MERGE_BUCKET w)(user_id \<mapsto> [])\<rparr>))
            (seq (set_state user_id File_menu (Some Merge_collect) None)
                 (tg E (Answer (cq_chat q) (Txt ''Send PDF files to merge.'') Merge_controls_kb)))
           else ret ())
          (tg E (Callback_answer user_id)))"

definition dl_actions :: "env \<Rightarrow> callback_query \<Rightarrow> unit prog" where
  "dl_actions E q =
     (let user_id = cq_from_user q; act = after_colon (cq_data q) in
      seq (if act = ascii ''auto'' then
             seq (set_state user_id Dl_menu (Some (Dl_wait_link Auto)) None)
                 (tg E (Answer (cq_chat q) (Txt ''Send a link. I will auto-detect.'') No_kb))
           else if act = ascii ''yt'' then
             seq (set_state user_id Dl_menu (Some (Dl_wait_link Yt)) None)
                 (tg E (Answer (cq_chat q) (Txt ''Send a YouTube video or playlist link.'') No_kb))
           else if act = ascii ''gdrive'' then
             seq (set_state user_id Dl_menu (Some (Dl_wait_link Gdrive)) None)
                 (tg E (Answer (cq_chat q) (Txt ''Send a Google Drive share link.'') No_kb))
           else if act = ascii ''mega'' then
             seq (set_state user_id Dl_menu (Some (Dl_wait_link Mega)) None)
                 (tg E (Answer (cq_chat q) (Txt ''Send a MEGA link.'') No_kb))
           else if act = ascii ''pixeldrain'' then
             seq (set_state user_id Dl_menu (Some (Dl_wait_link Pixeldrain)) None)
                 (tg E (Answer (cq_chat q) (Txt ''Send a PixelDrain link.'') No_kb))
           else ret ())
          (tg E (Callback_answer user_id)))"

text \<open>
  \<^verbatim>\<open>
  async def merge_controls(q):
      user_id = q.from_user.id
      cmd = q.data.split(":", 1)[1]
      if cmd == "clear":
          MERGE_BUCKET[user_id] = []
          await q.message.answer("Merge list cleared. Send PDFs again.")
      elif cmd == "cancel":
          MERGE_BUCKET.pop(user_id, None)
          set_state(user_id, "file", None)
          await q.message.answer("Merge cancelled.", reply_markup=file_menu_kb())
      elif cmd == "done":
          pdfs = MERGE_BUCKET.get(user_id, [])
          if len(pdfs) < 2:
              await q.message.answer("Send at least 2 PDFs before merging.")
              await q.answer()
              return
          out = output_dir(settings.base_dir, user_id) / safe_filename("merged.pdf")
          try:
              await q.message.answer("Merging PDFs...")
              await run_blocking(do_merge_pdfs, pdfs, out)
              await send_file(q.message.chat.id, out, caption="Merged PDF")
          finally:
              MERGE_BUCKET.pop(user_id, None)
          set_state(user_id, "file", None)
      await q.answer()
  \<close>
\<close>

definition bucket_get :: "(int \<rightharpoonup> path list) \<Rightarrow> int \<Rightarrow> path list" where
  "bucket_get b user_id = (case b user_id of None \<Rightarrow> [] | Some ps \<Rightarrow> ps)"

definition merge_controls :: "settings \<Rightarrow> env \<Rightarrow> callback_query \<Rightarrow> unit prog" where
  "merge_controls S E q w =
     (let user_id = cq_from_user q; cmd = after_colon (cq_data q) in
      if cmd = ascii ''clear'' then
        seq (modify (\<lambda>w. w\<lparr>MERGE_BUCKET := (MERGE_BUCKET w)(user_id \<mapsto> [])\<rparr>))
       (seq (tg E (Answer (cq_chat q) (Txt ''Merge list cleared. Send PDFs again.'') No_kb))
            (tg E (Callback_answer user_id))) w
      else if cmd = ascii ''cancel'' then
        seq (modify (\<lambda>w. w\<lparr>MERGE_BUCKET := (MERGE_BUCKET w)(user_id := None)\<rparr>))
       (seq (set_state user_id File_menu None None)
       (seq (tg E (Answer (cq_chat q) (Txt ''Merge cancelled.'') File_menu_kb))
            (tg E (Callback_answer user_id)))) w
      else if cmd = ascii ''done'' then
        (let pdfs = bucket_get (MERGE_BUCKET w) user_id in
         if length pdfs < 2 then
           seq (tg E (Answer (cq_chat q) (Txt ''Send at least 2 PDFs before merging.'') No_kb))
               (tg E (Callback_answer user_id)) w
         else
           bind (output_dir E (base_dir S) user_id) (\<lambda>odir.
             let out = join odir (safe_filename (ascii ''merged.pdf'')) in
             seq (try_finally
                    (seq (tg E (Answer (cq_chat q) (Txt ''Merging PDFs...'') No_kb))
                    (seq (bind (do_merge_pdfs E pdfs out) (\<lambda>_. ret ()))
                         (send_file E (cq_chat q) out ''Merged PDF'')))
                    (modify (\<lambda>w. w\<lparr>MERGE_BUCKET := (MERGE_BUCKET w)(user_id := None)\<rparr>)))
            (seq (set_state user_id File_menu None None)
                 (tg E (Callback_answer user_id)))) w)
      else tg E (Callback_answer user_id) w)"

definition imgpdf_controls :: "settings \<Rightarrow> env \<Rightarrow> callback_query \<Rightarrow> unit prog" where
  "imgpdf_controls S E q w =
     (let user_id = cq_from_user q; cmd = after_colon (cq_data q) in
      if cmd = ascii ''clear'' then
        seq (modify (\<lambda>w. w\<lparr>IMG_BUCKET := (IMG_BUCKET w)(user_id \<mapsto> [])\<rparr>))
       (seq (tg E (Answer (cq_chat q) (Txt ''Image list cleared. Send images again.'') No_kb))
            (tg E (Callback_answer user_id))) w
      else if cmd = ascii ''cancel'' then
        seq (modify (\<lambda>w. w\<lparr>IMG_BUCKET := (IMG_BUCKET w)(user_id := None)\<rparr>))
       (seq (set_state user_id File_menu None None)
       (seq (tg E (Answer (cq_chat q) (Txt ''Image->PDF cancelled.'') File_menu_kb))
            (tg E (Callback_answer user_id)))) w
      else if cmd = ascii ''done'' then
        (let imgs = bucket_get (IMG_BUCKET w) user_id in
         if length imgs < 1 then
           seq (tg E (Answer (cq_chat q) (Txt ''Send at least 1 image first.'') No_kb))
               (tg E (Callback_answer user_id)) w
         else
           bind (output_dir E (base_dir S) user_id) (\<lambda>odir.
             let out = join odir (safe_filename (ascii ''images.pdf'')) in
             seq (try_finally
                    (seq (tg E (Answer (cq_chat q) (Txt ''Converting images to PDF...'') No_kb))
                    (seq (bind (do_images_to_pdf E imgs out) (\<lambda>_. ret ()))
                         (send_file E (cq_chat q) out ''Image -> PDF'')))
                    (modify (\<lambda>w. w\<lparr>IMG_BUCKET := (IMG_BUCKET w)(user_id := None)\<rparr>)))
            (seq (set_state user_id File_menu None None)
                 (tg E (Callback_answer user_id)))) w)
      else tg E (Callback_answer user_id) w)"

section \<open>bot.py: the message handler\<close>

text \<open>
  \<open>PROXY_RE = re.compile(r"^(http|https|socks5)://", re.I)\<close> and \<open>PROXY_RE.match(p)\<close>.
  Under \<open>re.I\<close> a lower-case letter of a \<open>str\<close> pattern matches itself, its capital
  and the code points whose lower case it is: the long s \<open>U+017F\<close> for \<open>s\<close>, the Kelvin
  sign \<open>U+212A\<close> for \<open>k\<close>, the dotted and dotless \<open>U+0130\<close>, \<open>U+0131\<close> for \<open>i\<close>.
  Any other pattern character matches itself.
\<close>

definition ci_match :: "nat \<Rightarrow> nat \<Rightarrow> bool" where
  "ci_match c x \<longleftrightarrow>
     (if 0x61 \<le> c \<and> c \<le> 0x7A then
        x = c \<or> x + 0x20 = c \<or> (c = 0x73 \<and> x = 0x17F) \<or> (c = 0x6B \<and> x = 0x212A)
        \<or> (c = 0x69 \<and> (x = 0x130 \<or> x = 0x131))
      else x = c)"

definition ci_prefix :: "pystr \<Rightarrow> pystr \<Rightarrow> bool" where
  "ci_prefix pat s \<longleftrightarrow> length pat \<le> length s \<and> list_all2 ci_match pat (take (length pat) s)"

definition PROXY_RE_match :: "pystr \<Rightarrow> bool" where
  "PROXY_RE_match p \<longleftrightarrow>
     ci_prefix (ascii ''http://'') p \<or> ci_prefix (ascii ''https://'') p
     \<or> ci_prefix (ascii ''socks5://'') p"

text \<open>\<open>message.text or ""\<close>\<close>

definition text_or_empty :: "message \<Rightarrow> pystr" where
  "text_or_empty m = (case msg_text m of None \<Rightarrow> [] | Some t \<Rightarrow> t)"

text \<open>
  \<^verbatim>\<open>
      if action == "proxy_wait":
          p = (message.text or "").strip()
          if not PROXY_RE.match(p):
              await message.reply("Proxy must start with http://, https://, or socks5://")
              return
          USER_PROXY[user_id] = p
          set_state(user_id, "proxy", None)
          await message.reply("Proxy saved")
          return
  \<close>
\<close>

definition proxy_wait_branch :: "env \<Rightarrow> message \<Rightarrow> unit prog" where
  "proxy_wait_branch E m =
     (let user_id = from_user m; p = strip (text_or_empty m) in
      if \<not> PROXY_RE_match p then
        message_reply E m (Txt ''Proxy must start with http://, https://, or socks5://'') No_kb
      else
        seq (modify (\<lambda>w. w\<lparr>USER_PROXY := (USER_PROXY w)(user_id \<mapsto> p)\<rparr>))
       (seq (set_state user_id Proxy_menu None None)
            (message_reply E m (Txt ''Proxy saved'') No_kb)))"

text \<open>
  \<^verbatim>\<open>
      if action == "text2pdf_wait_text":
          txt = (message.text or "")
          if not txt.strip():
              await message.reply("Send some text (not empty).")
              return
          if len(txt) > settings.max_text_len:
              await message.reply(f"Text too long (limit {settings.max_text_len} characters).")
              return
          out = output_dir(settings.base_dir, user_id) / safe_filename("text.pdf")
          await message.answer("Creating PDF...")
          await run_blocking(do_text_to_pdf, txt, out)
          await send_file(message.chat.id, out, caption="Text -> PDF")
          set_state(user_id, "file", None)
          return
  \<close>
\<close>

definition text2pdf_branch :: "settings \<Rightarrow> env \<Rightarrow> message \<Rightarrow> unit prog" where
  "text2pdf_branch S E m =
     (let user_id = from_user m; txt = text_or_empty m in
      if strip txt = [] then
        message_reply E m (Txt ''Send some text (not empty).'') No_kb
      else if int (length txt) > max_text_len S then
        message_reply E m (Text_too_long (max_text_len S)) No_kb
      else
        bind (output_dir E (base_dir S) user_id) (\<lambda>odir.
          let out = join odir (safe_filename (ascii ''text.pdf'')) in
          seq (message_answer E m (Txt ''Creating PDF...'') No_kb)
         (seq (bind (do_text_to_pdf E txt out) (\<lambda>_. ret ()))
         (seq (send_file E (chat m) out ''Text -> PDF'')
              (set_state user_id File_menu None None)))))"

text \<open>
  The document flows. Each starts from
  \<^verbatim>\<open>
          filename = message.document.file_name or "file.bin"
          kind, ext = detect_content_type_from_name(filename)
          wdir = work_dir(settings.base_dir, user_id)
          ddir = downloads_dir(settings.base_dir, user_id)
          odir = output_dir(settings.base_dir, user_id)
          local_path = wdir / safe_filename(filename)
  \<close>
\<close>

definition zip_branch ::
  "settings \<Rightarrow> env \<Rightarrow> message \<Rightarrow> pystr \<Rightarrow> path \<Rightarrow> path \<Rightarrow> unit prog" where
  "zip_branch S E m filename local_path odir =
     seq (message_answer E m (Txt ''Downloading file...'') No_kb)
    (seq (bind (download_telegram_file S E m local_path) (\<lambda>_. ret ()))
    (let out_zip = join odir (safe_filename (stem (path_parts filename) @ ascii ''.zip'')) in
     seq (message_answer E m (Txt ''Zipping...'') No_kb)
    (seq (bind (do_zip E [local_path] out_zip) (\<lambda>_. ret ()))
    (seq (send_file E (chat m) out_zip ''Zipped'')
         (set_state (from_user m) File_menu None None)))))"

definition unzip_branch ::
  "settings \<Rightarrow> env \<Rightarrow> message \<Rightarrow> pystr \<Rightarrow> path \<Rightarrow> path \<Rightarrow> path \<Rightarrow> unit prog" where
  "unzip_branch S E m filename local_path wdir odir =
     seq (message_answer E m (Txt ''Downloading ZIP...'') No_kb)
    (seq (bind (download_telegram_file S E m local_path) (\<lambda>_. ret ()))
    (\<lambda>w.
       if \<not> is_zip (disk w) local_path then
         message_reply E m (Txt ''That file is not a valid ZIP.'') No_kb w
       else
         (let extracted = join wdir (ascii ''unzipped'');
              out_zip = join odir (safe_filename (stem (path_parts filename) @ ascii ''_unzipped.zip''))
          in seq (message_answer E m (Txt ''Unzipping...'') No_kb)
            (seq (bind (do_unzip E local_path extracted) (\<lambda>_. ret ()))
            (seq (message_answer E m (Txt ''Re-zipping extracted folder...'') No_kb)
            (seq (bind (do_zip E [extracted] out_zip) (\<lambda>_. ret ()))
            (seq (send_file E (chat m) out_zip ''Unzipped + rezipped'')
                 (set_state (from_user m) File_menu None None)))))) w))"

definition rename_file_branch :: "settings \<Rightarrow> env \<Rightarrow> message \<Rightarrow> path \<Rightarrow> unit prog" where
  "rename_file_branch S E m local_path =
     seq (message_answer E m (Txt ''Downloading file...'') No_kb)
    (seq (bind (download_telegram_file S E m local_path) (\<lambda>_. ret ()))
    (seq (set_state (from_user m) File_menu (Some Rename_wait_newname) (Some local_path))
         (message_answer E m (Txt ''Now send the NEW filename (example: newname.pdf)'') No_kb)))"

definition bucket_append :: "(int \<rightharpoonup> path list) \<Rightarrow> int \<Rightarrow> path \<Rightarrow> (int \<rightharpoonup> path list)" where
  "bucket_append b user_id p = b(user_id \<mapsto> bucket_get b user_id @ [p])"

definition merge_collect_branch ::
  "settings \<Rightarrow> env \<Rightarrow> message \<Rightarrow> pystr \<Rightarrow> path \<Rightarrow> unit prog" where
  "merge_collect_branch S E m kind local_path =
     (if kind \<noteq> ascii ''pdf'' then
        message_reply E m (Txt ''Please send only PDF files for merging.'') No_kb
      else
        seq (message_answer E m (Txt ''Downloading PDF...'') No_kb)
       (seq (bind (download_telegram_file S E m local_path) (\<lambda>_. ret ()))
       (seq (modify (\<lambda>w. w\<lparr>MERGE_BUCKET := bucket_append (MERGE_BUCKET w) (from_user m) local_path\<rparr>))
            (\<lambda>w. message_answer E m
                    (Added_total (length (bucket_get (MERGE_BUCKET w) (from_user m))))
                    Merge_controls_kb w))))"

definition img2pdf_collect_branch ::
  "settings \<Rightarrow> env \<Rightarrow> message \<Rightarrow> pystr \<Rightarrow> path \<Rightarrow> unit prog" where
  "img2pdf_collect_branch S E m kind local_path =
     (if kind \<noteq> ascii ''image'' then
        message_reply E m (Txt ''Please send only image files (jpg/png/etc).'') No_kb
      else
        seq (message_answer E m (Txt ''Downloading image...'') No_kb)
       (seq (bind (download_telegram_file S E m local_path) (\<lambda>_. ret ()))
       (seq (modify (\<lambda>w. w\<lparr>IMG_BUCKET := bucket_append (IMG_BUCKET w) (from_user m) local_path\<rparr>))
            (\<lambda>w. message_answer E m
                    (Added_total (length (bucket_get (IMG_BUCKET w) (from_user m))))
                    Imgpdf_controls_kb w))))"

text \<open>\<open>message.document.file_name or "file.bin"\<close>\<close>

definition document_filename :: "document \<Rightarrow> pystr" where
  "document_filename doc =
     (case file_name doc of None \<Rightarrow> ascii ''file.bin''
      | Some n \<Rightarrow> if n = [] then ascii ''file.bin'' else n)"

definition document_branch ::
  "settings \<Rightarrow> env \<Rightarrow> (nat \<Rightarrow> pystr) \<Rightarrow> message \<Rightarrow> document \<Rightarrow> action option \<Rightarrow> unit prog" where
  "document_branch S E tbl m doc act =
     (let user_id = from_user m;
          filename = document_filename doc;
          kind = fst (detect_content_type_from_name tbl filename)
      in
      bind (work_dir E (base_dir S) user_id) (\<lambda>wdir.
      bind (downloads_dir E (base_dir S) user_id) (\<lambda>ddir.
      bind (output_dir E (base_dir S) user_id) (\<lambda>odir.
        let local_path = join wdir (safe_filename filename) in
        if act = Some Zip_wait_file then zip_branch S E m filename local_path odir
        else if act = Some Unzip_wait_zip then unzip_branch S E m filename local_path wdir odir
        else if act = Some Rename_wait_file then rename_file_branch S E m local_path
        else if act = Some Merge_collect then merge_collect_branch S E m kind local_path
        else if act = Some Img2pdf_collect then img2pdf_collect_branch S E m kind local_path
        else message_reply E m (Txt ''Use the buttons to pick a task first.'') Main_menu_kb))))"

text \<open>
  \<^verbatim>\<open>
      if action == "rename_wait_newname":
          new_name = (message.text or "").strip()
          if not new_name:
              await message.reply("Send a valid filename (example: myfile.pdf)")
              return
          path_str = st.get("rename_path")
          if not path_str:
              set_state(user_id, "file", None)
              await message.reply("Rename session expired. Try again.")
              return
          fpath = Path(path_str)
          try:
              new_path = await run_blocking(do_rename, fpath, new_name)
          except Exception as e:
              await message.reply(f"Rename failed: {e}")
              return
          await send_file(message.chat.id, new_path, caption="Renamed")
          set_state(user_id, "file", None)
          return
  \<close>
  The handler that runs when \<open>do_rename\<close> raises ends the branch; so the two
  statements after the \<open>try\<close> are run on its normal exit only.
\<close>

definition rename_newname_branch :: "env \<Rightarrow> message \<Rightarrow> session \<Rightarrow> unit prog" where
  "rename_newname_branch E m st =
     (let user_id = from_user m; new_name = strip (text_or_empty m) in
      if new_name = [] then
        message_reply E m (Txt ''Send a valid filename (example: myfile.pdf)'') No_kb
      else
        (case rename_path st of
           None \<Rightarrow>
             seq (set_state user_id File_menu None None)
                 (message_reply E m (Txt ''Rename session expired. Try again.'') No_kb)
         | Some fpath \<Rightarrow>
             bind (try_except
                     (bind (do_rename E fpath new_name) (\<lambda>new_path. ret (Some new_path)))
                     (\<lambda>e. seq (message_reply E m (Rename_failed e) No_kb) (ret None)))
               (\<lambda>r. case r of
                       None \<Rightarrow> ret ()
                     | Some new_path \<Rightarrow>
                         seq (send_file E (chat m) new_path ''Renamed'')
                             (set_state user_id File_menu None None))))"

text \<open>
  The download flows: \<open>mode = action.replace("dl_wait_link_", "")\<close>, replaced by the
  guess when it is \<open>"auto"\<close>. The retrieval functions of features\_download.py talk to
  the network; each is one library call that returns the path of what it fetched.
\<close>

definition mode_name :: "dl_mode \<Rightarrow> pystr" where
  "mode_name md =
     (case md of Auto \<Rightarrow> ascii ''auto'' | Yt \<Rightarrow> ascii ''yt'' | Gdrive \<Rightarrow> ascii ''gdrive''
      | Mega \<Rightarrow> ascii ''mega'' | Pixeldrain \<Rightarrow> ascii ''pixeldrain'')"

definition dl_link_branch ::
  "settings \<Rightarrow> env \<Rightarrow> (nat \<Rightarrow> pystr) \<Rightarrow> message \<Rightarrow> dl_mode \<Rightarrow> pystr option \<Rightarrow> unit prog" where
  "dl_link_branch S E tbl m md proxy =
     (let user_id = from_user m; url = strip (text_or_empty m) in
      if url = [] then message_reply E m (Txt ''Send a valid link.'') No_kb
      else
        bind (downloads_dir E (base_dir S) user_id) (\<lambda>ddir.
        bind (output_dir E (base_dir S) user_id) (\<lambda>odir.
          let mode = (if mode_name md = ascii ''auto'' then guess_downloader tbl url
                      else mode_name md)
          in
          try_finally
            (try_except
               (seq (message_answer E m (Txt ''Working on it...'') No_kb)
                  (if mode = ascii ''pixeldrain'' then
                     bind (lib E (Retrieve Pixeldrain url ddir proxy))
                       (\<lambda>p. send_file E (chat m) p ''PixelDrain download'')
                   else if mode = ascii ''gdrive'' then
                     bind (lib E (Retrieve Gdrive url ddir proxy))
                       (\<lambda>p. send_file E (chat m) p ''Google Drive download'')
                   else if mode = ascii ''youtube'' \<or> mode = ascii ''yt'' then
                     bind (lib E (Retrieve Yt url ddir proxy))
                       (\<lambda>yt_out w.
                          if is_dir (disk w) yt_out then
                            (let out_zip = join odir (safe_filename (ascii ''youtube_playlist.zip'')) in
                             seq (message_answer E m (Txt ''Playlist detected -> zipping...'') No_kb)
                            (seq (bind (do_zip E [yt_out] out_zip) (\<lambda>_. ret ()))
                                 (send_file E (chat m) out_zip ''YouTube playlist ZIP''))) w
                          else send_file E (chat m) yt_out ''YouTube download'' w)
                   else if mode = ascii ''mega'' then
                     bind (lib E (Retrieve Mega url ddir proxy))
                       (\<lambda>p. send_file E (chat m) p ''MEGA download'')
                   else
                     message_reply E m (Txt ''I could not detect that link type.'') No_kb))
               (\<lambda>e. message_reply E m (Download_failed e) No_kb))
            (set_state user_id Dl_menu None None))))"

text \<open>
  \<^verbatim>\<open>
  @dp.message()
  async def handle_message(message):
      user_id = message.from_user.id
      st = get_state(user_id)
      action = st.get("action")
      proxy = user_proxy(user_id)
      if action == "proxy_wait": ...
      if action == "text2pdf_wait_text": ...
      if message.document: ...
      if action == "rename_wait_newname": ...
      if action and action.startswith("dl_wait_link"): ...
      await message.reply("Use the buttons to choose a task.", reply_markup=main_menu_kb())
  \<close>
\<close>

definition handle_message :: "settings \<Rightarrow> env \<Rightarrow> (nat \<Rightarrow> pystr) \<Rightarrow> message \<Rightarrow> unit prog" where
  "handle_message S E tbl m w =
     (let user_id = from_user m;
          st = get_state w user_id;
          act = action st;
          proxy = user_proxy w user_id
      in
      if act = Some Proxy_wait then proxy_wait_branch E m w
      else if act = Some Text2pdf_wait_text then text2pdf_branch S E m w
      else
        (case msg_document m of
           Some doc \<Rightarrow> document_branch S E tbl m doc act w
         | None \<Rightarrow>
             if act = Some Rename_wait_newname then rename_newname_branch E m st w
             else
               (case act of
                  Some (Dl_wait_link md) \<Rightarrow> dl_link_branch S E tbl m md proxy w
                | _ \<Rightarrow> message_reply E m (Txt ''Use the buttons to choose a task.'') Main_menu_kb w)))"

section \<open>The dispatcher\<close>

text \<open>
  The handlers are registered in this order: \<open>start\<close> for a message that is the start
  command, then the callback handlers by the prefix of the callback data, then
  \<open>handle_message\<close> for every other message. The first handler whose filter accepts an
  update runs; an update that no filter accepts changes nothing. Whether a message is
  the start command is decided by the framework's filter and is part of the update.
\<close>

datatype update = Start_command message | Message message | Callback callback_query

definition dispatch :: "settings \<Rightarrow> env \<Rightarrow> (nat \<Rightarrow> pystr) \<Rightarrow> update \<Rightarrow> unit prog" where
  "dispatch S E tbl u =
     (case u of
        Start_command m \<Rightarrow> start S E m
      | Message m \<Rightarrow> handle_message S E tbl m
      | Callback q \<Rightarrow>
          if prefix (ascii ''menu:'') (cq_data q) then menu_nav E q
          else if prefix (ascii ''proxy:'') (cq_data q) then proxy_actions E q
          else if prefix (ascii ''file:'') (cq_data q) then file_actions E q
          else if prefix (ascii ''dl:'') (cq_data q) then dl_actions E q
          else if prefix (ascii ''merge:'') (cq_data q) then merge_controls S E q
          else if prefix (ascii ''imgpdf:'') (cq_data q) then imgpdf_controls S E q
          else ret ())"

section \<open>app.py: the variant of merge\_controls\<close>

text \<open>
  app.py keeps its settings in module constants; \<open>FREE_MODE\<close> and the base directory
  are the parameters here.
  \<^verbatim>\<open>
  def user_dirs(user_id):
      u = BASE / str(user_id)
      w = u / "work"; d = u / "downloads"; o = u / "output"
      for p in (w, d, o):
          p.mkdir(parents=True, exist_ok=True)
      return w, d, o

  async def send_file(chat_id, path, caption=""):
      await bot.send_document(chat_id, FSInputFile(str(path)), caption=caption[:900])

      elif cmd == "done":
          pdfs = MERGE_BUCKET.get(user_id, [])
          if len(pdfs) < 2:
              await q.message.answer("Send at least 2 PDFs.")
              await q.answer()
              return
          if FREE_MODE and len(pdfs) > 10:
              await q.message.answer("Free mode: max 10 PDFs per merge.")
              await q.answer()
              return
          _, _, outdir = user_dirs(user_id)
          out = outdir / "merged.pdf"
          await q.message.answer("Merging...")
          await to_thread(merge_pdfs, pdfs, out)
          await send_file(q.message.chat.id, out, "Merged PDF")
          MERGE_BUCKET.pop(user_id, None)
          set_state(user_id, "file", None)
      await q.answer()
  \<close>
\<close>

definition user_dirs :: "env \<Rightarrow> path \<Rightarrow> int \<Rightarrow> (path \<times> path \<times> path) prog" where
  "user_dirs E base user_id =
     (let u = join base (str_int user_id);
          wd = join u (ascii ''work'');
          dd = join u (ascii ''downloads'');
          od = join u (ascii ''output'')
      in seq (for_each [wd, dd, od] (mkdir_parents E)) (ret (wd, dd, od)))"

definition app_send_file :: "env \<Rightarrow> int \<Rightarrow> path \<Rightarrow> string \<Rightarrow> unit prog" where
  "app_send_file E chat_id p caption = tg E (Send_document chat_id p (take 900 caption))"

definition app_merge_controls :: "bool \<Rightarrow> path \<Rightarrow> env \<Rightarrow> callback_query \<Rightarrow> unit prog" where
  "app_merge_controls FREE_MODE base E q w =
     (let user_id = cq_from_user q; cmd = after_colon (cq_data q) in
      if cmd = ascii ''clear'' then
        seq (modify (\<lambda>w. w\<lparr>MERGE_BUCKET := (MERGE_BUCKET w)(user_id \<mapsto> [])\<rparr>))
       (seq (tg E (Answer (cq_chat q) (Txt ''Merge list cleared.'') No_kb))
            (tg E (Callback_answer user_id))) w
      else if cmd = ascii ''cancel'' then
        seq (modify (\<lambda>w. w\<lparr>MERGE_BUCKET := (MERGE_BUCKET w)(user_id := None)\<rparr>))
       (seq (set_state user_id File_menu None None)
       (seq (tg E (Answer (cq_chat q) (Txt ''Cancelled.'') File_menu_kb))
            (tg E (Callback_answer user_id)))) w
      else if cmd = ascii ''done'' then
        (let pdfs = bucket_get (MERGE_BUCKET w) user_id in
         if length pdfs < 2 then
           seq (tg E (Answer (cq_chat q) (Txt ''Send at least 2 PDFs.'') No_kb))
               (tg E (Callback_answer user_id)) w
         else if FREE_MODE \<and> length pdfs > 10 then
           seq (tg E (Answer (cq_chat q) (Txt ''Free mode: max 10 PDFs per merge.'') No_kb))
               (tg E (Callback_answer user_id)) w
         else
           bind (user_dirs E base user_id) (\<lambda>(wd, dd, outdir).
             let out = join outdir (ascii ''merged.pdf'') in
             seq (tg E (Answer (cq_chat q) (Txt ''Merging...'') No_kb))
            (seq (bind (merge_pdfs E pdfs out) (\<lambda>_. ret ()))
            (seq (app_send_file E (cq_chat q) out ''Merged PDF'')
            (seq (modify (\<lambda>w. w\<lparr>MERGE_BUCKET := (MERGE_BUCKET w)(user_id := None)\<rparr>))
            (seq (set_state user_id File_menu None None)
                 (tg E (Callback_answer user_id))))))) w)
      else tg E (Callback_answer user_id) w)"

section \<open>A concrete environment and world\<close>

text \<open>
  For running the handlers on concrete inputs: an environment in which the transport
  accepts every call, the clock stands still, \<open>rmtree\<close> removes whole trees, and the
  libraries do the least that their callers rely on (a call that writes an output file
  creates it, empty; a download stores an empty file; a retrieval fails); and a world
  with empty session maps and an empty disk.
\<close>

definition plain_library :: "effect list \<Rightarrow> node \<Rightarrow> exn + path \<times> node" where
  "plain_library tr d =
     (let creates = (\<lambda>p. case write_file 0 p (Bytes []) d of
                           Inl e \<Rightarrow> Inl e | Inr d' \<Rightarrow> Inr (p, d'))
      in case last tr of
           Tg_download f dest \<Rightarrow> creates dest
         | Render_text_pdf t out \<Rightarrow> creates out
         | Image_save ps out \<Rightarrow> creates out
         | Merger_write out \<Rightarrow> creates out
         | Retrieve md url dir proxy \<Rightarrow> Inl (External 0)
         | _ \<Rightarrow> Inr ([], d))"

definition plain_env :: env where
  "plain_env = \<lparr>transport = (\<lambda>tr. None), library = plain_library,
                 rmtree_remnant = (\<lambda>tr n. None), clock = (\<lambda>tr. 0)\<rparr>"

definition empty_world :: world where
  "empty_world = \<lparr>USER_STATE = Map.empty, USER_PROXY = Map.empty, MERGE_BUCKET = Map.empty,
                   IMG_BUCKET = Map.empty, disk = Dir 0 [], trace = []\<rparr>"

definition in_state :: "int \<Rightarrow> menu \<Rightarrow> action option \<Rightarrow> world" where
  "in_state user_id mn act =
     empty_world\<lparr>USER_STATE := [user_id \<mapsto> \<lparr>menu = mn, action = act, rename_path = None\<rparr>]\<rparr>"

definition text_message :: "int \<Rightarrow> string \<Rightarrow> message" where
  "text_message user_id s =
     \<lparr>from_user = user_id, chat = user_id, msg_text = Some (ascii s), msg_document = None\<rparr>"

definition document_message :: "int \<Rightarrow> string \<Rightarrow> int \<Rightarrow> message" where
  "document_message user_id name sz =
     \<lparr>from_user = user_id, chat = user_id, msg_text = None,
      msg_document = Some \<lparr>file_id = ascii ''f1'', file_name = Some (ascii name),
                            file_size = Some sz\<rparr>\<rparr>"

definition default_settings :: settings where
  "default_settings = \<lparr>base_dir = [ascii ''storage''], max_telegram_file_mb = 1900,
                        max_text_len = 200000\<rparr>"

text \<open>A user who has sent two PDFs for merging, and the press of the done button.\<close>

definition two_pdfs :: world where
  "two_pdfs = (in_state 7 File_menu (Some Merge_collect))
     \<lparr>MERGE_BUCKET := [7 \<mapsto> [[ascii ''a.pdf''], [ascii ''b.pdf'']]]\<rparr>"

definition merge_done_pressed :: callback_query where
  "merge_done_pressed = \<lparr>cq_from_user = 7, cq_chat = 7, cq_data = ascii ''merge:done''\<rparr>"

text \<open>An environment whose libraries fail at every call.\<close>

definition failing_env :: env where
  "failing_env = plain_env\<lparr>library := (\<lambda>tr d. Inl (External 1))\<rparr>"

text \<open>An environment whose libraries succeed at every call and leave the disk as it is.\<close>

definition idle_env :: env where
  "idle_env = plain_env\<lparr>library := (\<lambda>tr d. Inr ([], d))\<rparr>"

section \<open>Frame conditions\<close>

text \<open>
  A program preserves an observation of the world when running it, to a normal end or to
  an exception, leaves the observation as it was. An observation ignores the outside
  when it does not depend on the disk or on the record of calls; such are the four
  session maps.
\<close>

definition preserves :: "(world \<Rightarrow> 'x) \<Rightarrow> 'a prog \<Rightarrow> bool" where
  "preserves f m \<longleftrightarrow> (\<forall>w. f (snd (m w)) = f w)"

definition ignores_io :: "(world \<Rightarrow> 'x) \<Rightarrow> bool" where
  "ignores_io f \<longleftrightarrow> (\<forall>w t. f (w\<lparr>trace := t\<rparr>) = f w) \<and> (\<forall>w d. f (w\<lparr>disk := d\<rparr>) = f w)"

text \<open>An observation of the buffers depends on neither the sessions nor the proxies.\<close>

definition ignores_session :: "(world \<Rightarrow> 'x) \<Rightarrow> bool" where
  "ignores_session f \<longleftrightarrow>
     ignores_io f \<and> (\<forall>w g. f (w\<lparr>USER_STATE := g\<rparr>) = f w) \<and> (\<forall>w g. f (w\<lparr>USER_PROXY := g\<rparr>) = f w)"

text \<open>The four session maps together.\<close>

definition session_maps ::
  "world \<Rightarrow> (int \<rightharpoonup> session) \<times> (int \<rightharpoonup> pystr) \<times> (int \<rightharpoonup> path list) \<times> (int \<rightharpoonup> path list)" where
  "session_maps w = (USER_STATE w, USER_PROXY w, MERGE_BUCKET w, IMG_BUCKET w)"

text \<open>
  \<open>outcome m w Q\<close>: running \<open>m\<close> in the world \<open>w\<close> ends, normally or with an exception,
  in a result and a world that satisfy \<open>Q\<close>.
\<close>

definition outcome :: "'a prog \<Rightarrow> world \<Rightarrow> ((exn + 'a) \<Rightarrow> world \<Rightarrow> bool) \<Rightarrow> bool" where
  "outcome m w Q \<longleftrightarrow> Q (fst (m w)) (snd (m w))"

section \<open>Output paths\<close>

text \<open>Where the merge writes its result, in bot.py and in app.py.\<close>

definition merged_pdf :: "settings \<Rightarrow> int \<Rightarrow> path" where
  "merged_pdf S u = join (join (join (base_dir S) (str_int u)) (ascii ''output''))
                      (safe_filename (ascii ''merged.pdf''))"

definition app_merged_pdf :: "path \<Rightarrow> int \<Rightarrow> path" where
  "app_merged_pdf base u = join (join (join base (str_int u)) (ascii ''output'')) (ascii ''merged.pdf'')"

text \<open>
  An environment is obliging when the transport accepts every call and every call of a
  library succeeds.
\<close>

definition obliging :: "env \<Rightarrow> bool" where
  "obliging E \<longleftrightarrow> (\<forall>t. transport E t = None) \<and> (\<forall>t d. \<exists>p d'. library E t d = Inr (p, d'))"

section \<open>Oversized documents\<close>

text \<open>
  The test of \<open>download_telegram_file\<close>:
  \<open>file.file_size and file.file_size > max_bytes\<close>.
\<close>

definition oversize :: "settings \<Rightarrow> document \<Rightarrow> bool" where
  "oversize S doc \<longleftrightarrow>
     (case file_size doc of None \<Rightarrow> False
      | Some n \<Rightarrow> n \<noteq> 0 \<and> n > max_telegram_file_mb S * 1024 * 1024)"

section \<open>The idle session of the file menu\<close>

definition file_none :: session where
  "file_none = \<lparr>menu = File_menu, action = None, rename_path = None\<rparr>"

section \<open>Old directories\<close>

text \<open>
  What the sweep removes: a directory whose modification time lies before the cutoff.
\<close>

definition old_dir :: "int \<Rightarrow> node \<Rightarrow> bool" where
  "old_dir cutoff n = (case n of Dir m es \<Rightarrow> m < cutoff | File c \<Rightarrow> False)"

definition old :: "int \<Rightarrow> node option \<Rightarrow> bool" where
  "old cutoff r = (case r of None \<Rightarrow> False | Some n \<Rightarrow> old_dir cutoff n)"

text \<open>
  A directory is dated when its modification time is one that \<open>datetime.fromtimestamp\<close>
  converts; the sweep does not ask files for their time.
\<close>

definition dated :: "node \<Rightarrow> bool" where
  "dated n = (case n of Dir m es \<Rightarrow> convertible m | File c \<Rightarrow> True)"

definition dated_entry :: "node option \<Rightarrow> bool" where
  "dated_entry r = (case r of None \<Rightarrow> True | Some n \<Rightarrow> dated n)"

text \<open>
  A storage directory for running the sweep: the directory of user 1 was last modified
  two days before the clock of the plain environment reads, that of user 2 just now, and
  beside them lies a file.
\<close>

definition swept_disk :: node where
  "swept_disk =
     Dir 0 [(ascii ''storage'', Dir 0
       [(ascii ''1'', Dir (- 172800000000) [(ascii ''work'', Dir (- 172800000000)
            [(ascii ''a.pdf'', File (Bytes [1, 2, 3]))])]),
        (ascii ''2'', Dir 0 [(ascii ''work'', Dir 0 [])]),
        (ascii ''notes.txt'', File (Bytes []))])]"

text \<open>
  A storage directory in which the directory of user 1 carries a modification time in the
  year 10680 (\<open>2 ^ 38\<close> seconds after the epoch).
\<close>

definition far_future_disk :: node where
  "far_future_disk =
     Dir 0 [(ascii ''storage'', Dir 0 [(ascii ''1'', Dir 274877906944000000 [])])]"

section \<open>What an archive holds\<close>

text \<open>
  The entries of the archive at a path, the content of a file, and the files below a
  directory in the order in which \<open>rglob\<close> lists them.
\<close>

definition archive :: "node \<Rightarrow> path \<Rightarrow> (pystr \<times> content) list option" where
  "archive d p = (case lookup d p of Some (File (Archive es)) \<Rightarrow> Some es | _ \<Rightarrow> None)"

definition file_content :: "node \<Rightarrow> path \<Rightarrow> content" where
  "file_content d p = (case lookup d p of Some (File c) \<Rightarrow> c | _ \<Rightarrow> Bytes [])"

definition files_under :: "node \<Rightarrow> path \<Rightarrow> path list" where
  "files_under d p = filter (is_file d) (map fst (rglob d p))"

text \<open>
  The entries expected for one input path: for a directory, one entry for each file
  below it, named by its path relative to the parent of the directory; otherwise one entry
  named by the last component of the path.
\<close>

definition stored :: "node \<Rightarrow> path \<Rightarrow> (pystr \<times> content) list" where
  "stored d p =
     (if is_dir d p then
        map (\<lambda>sub. (join_slash (relative_to sub (parent p)), file_content d sub)) (files_under d p)
      else [(name_of p, file_content d p)])"

text \<open>
  A disk with a directory \<open>work/d\<close> that lists a directory with a file first and then
  a file.
\<close>

definition nested_disk :: node where
  "nested_disk = Dir 0 [(ascii ''work'', Dir 0
     [(ascii ''d'', Dir 0
        [(ascii ''s'', Dir 0 [(ascii ''b.txt'', File (Bytes [2]))]),
         (ascii ''a.txt'', File (Bytes [1]))]),
      (ascii ''c.txt'', File (Bytes [3]))])]"

section \<open>Properties of safe\_filename\<close>

lemma space_not_illegal: "\<not> illegal 0x20" "\<not> illegal 0x5F" "is_space 0x20" "\<not> is_space 0x5F" "is_space 0x0A"
  by (simp_all add: illegal_def illegal_chars_def is_space_def)

lemma illegal_nl: "illegal 0x0A" by (simp add: illegal_def)

lemma hd_dropWhile_ns: "dropWhile is_space s \<noteq> [] \<Longrightarrow> \<not> is_space (hd (dropWhile is_space s))"
  by (metis hd_dropWhile)

lemma collapse_set: "set (collapse_ws s) \<subseteq> set s \<union> {0x20}"
proof (induction s rule: collapse_ws.induct)
  case 1 show ?case by simp
next
  case (2 c cs)
  show ?case
  proof (cases "is_space c")
    case True
    with 2 have "set (collapse_ws (dropWhile is_space cs)) \<subseteq> set (dropWhile is_space cs) \<union> {0x20}" by simp
    moreover have "set (dropWhile is_space cs) \<subseteq> set cs" by (rule set_dropWhileD[THEN subsetI]) 
    ultimately show ?thesis using True by auto
  next
    case False
    with 2 show ?thesis by auto
  qed
qed

lemma collapse_hd: "collapse_ws s \<noteq> [] \<Longrightarrow> \<not> is_space (hd s) \<Longrightarrow> hd (collapse_ws s) = hd s"
  by (cases s) auto

lemma collapse_nil: "collapse_ws s = [] \<longleftrightarrow> s = []"
  by (cases s) auto

lemma collapse_single_spaced: "single_spaced (collapse_ws s)"
proof (induction s rule: collapse_ws.induct)
  case 1 show ?case by simp
next
  case (2 c cs)
  show ?case
  proof (cases "is_space c")
    case True
    let ?r = "dropWhile is_space cs"
    from 2 True have t: "single_spaced (collapse_ws ?r)" by simp
    have "collapse_ws ?r = [] \<or> \<not> is_space (hd (collapse_ws ?r))"
    proof (cases "?r = []")
      case True
      then have "collapse_ws ?r = []" by (simp only: collapse_ws.simps)
      then show ?thesis ..
    next
      case False
      then have ns: "\<not> is_space (hd ?r)" by (rule hd_dropWhile_ns)
      from False have "collapse_ws ?r \<noteq> []" by (simp add: collapse_nil)
      with ns show ?thesis by (simp add: collapse_hd)
    qed
    with t True show ?thesis by simp
  next
    case False
    with 2 show ?thesis by simp
  qed
qed

lemma single_spaced_fix: "single_spaced t \<Longrightarrow> collapse_ws t = t"
proof (induction t)
  case Nil show ?case by simp
next
  case (Cons c cs)
  then show ?case by (cases cs) auto
qed

lemma single_spaced_take: "single_spaced t \<Longrightarrow> single_spaced (take n t)"
proof (induction t arbitrary: n)
  case Nil show ?case by simp
next
  case (Cons c cs)
  show ?case
  proof (cases n)
    case 0 then show ?thesis by simp
  next
    case (Suc m)
    have "take m cs = [] \<or> hd (take m cs) = hd cs" by (cases m; cases cs) auto
    with Cons Suc show ?thesis by auto
  qed
qed

lemma single_spaced_space: "single_spaced t \<Longrightarrow> c \<in> set t \<Longrightarrow> is_space c \<Longrightarrow> c = 0x20"
  by (induction t) auto

lemma single_spaced_snoc: "single_spaced (t @ [a, b]) \<Longrightarrow> is_space b \<Longrightarrow> \<not> is_space a"
  by (induction t) auto

lemma single_spaced_append: "single_spaced (t @ u) \<Longrightarrow> single_spaced t"
proof (induction t)
  case Nil show ?case by simp
next
  case (Cons c cs)
  then show ?case by (cases cs) auto
qed


lemma strip_prefix: "\<exists>ys. dropWhile is_space s = strip s @ ys"
proof -
  let ?t = "dropWhile is_space s"
  have "rev (dropWhile is_space (rev ?t)) @ rev (takeWhile is_space (rev ?t))
          = rev (takeWhile is_space (rev ?t) @ dropWhile is_space (rev ?t))"
    by (simp only: rev_append)
  also have "\<dots> = ?t" by (simp only: takeWhile_dropWhile_id rev_rev_ident)
  finally have "?t = strip s @ rev (takeWhile is_space (rev ?t))" by (simp only: strip_def)
  then show ?thesis ..
qed

lemma strip_hd: "strip s \<noteq> [] \<Longrightarrow> \<not> is_space (hd (strip s))"
proof -
  assume ne: "strip s \<noteq> []"
  obtain ys where e: "dropWhile is_space s = strip s @ ys" using strip_prefix by blast
  with ne have "dropWhile is_space s \<noteq> []" by simp
  then have "\<not> is_space (hd (dropWhile is_space s))" by (rule hd_dropWhile_ns)
  with e ne show ?thesis by simp
qed

lemma dropWhile_id: "s = [] \<or> \<not> P (hd s) \<Longrightarrow> dropWhile P s = s"
  by (cases s) auto

lemma strip_id: "s = [] \<or> (\<not> is_space (hd s) \<and> \<not> is_space (last s)) \<Longrightarrow> strip s = s"
proof -
  assume a: "s = [] \<or> (\<not> is_space (hd s) \<and> \<not> is_space (last s))"
  then have 1: "dropWhile is_space s = s" by (intro dropWhile_id) blast
  from a have "rev s = [] \<or> \<not> is_space (hd (rev s))" by (auto simp: hd_rev)
  then have "dropWhile is_space (rev s) = rev s" by (rule dropWhile_id)
  with 1 show ?thesis by (simp add: strip_def)
qed

lemma strip_trailing: "t \<noteq> [] \<Longrightarrow> \<not> is_space (hd t) \<Longrightarrow> \<not> is_space (last t) \<Longrightarrow> is_space b \<Longrightarrow> strip (t @ [b]) = t"
proof -
  assume a: "t \<noteq> []" "\<not> is_space (hd t)" "\<not> is_space (last t)" "is_space b"
  then have 1: "dropWhile is_space (t @ [b]) = t @ [b]" by (intro dropWhile_id) simp
  from a have "dropWhile is_space (rev t) = rev t" by (intro dropWhile_id) (simp add: hd_rev)
  with a 1 show ?thesis by (simp add: strip_def)
qed

lemma replace_newlines_id: "\<forall>c\<in>set s. c \<noteq> 0x0A \<Longrightarrow> replace_newlines s = s"
  by (simp add: replace_newlines_def map_idI)

lemma sub_illegal_id: "\<forall>c\<in>set s. \<not> illegal c \<Longrightarrow> sub_illegal s = s"
  by (simp add: sub_illegal_def map_idI)

lemma sub_illegal_clean: "\<forall>c\<in>set (sub_illegal s). \<not> illegal c"
  by (auto simp: sub_illegal_def space_not_illegal)


lemma sf_collapsed: "safe_filename x = take 180 (collapsed x)"
  by (simp add: safe_filename_def collapsed_def Let_def)

lemma collapsed_clean: "c \<in> set (collapsed x) \<Longrightarrow> \<not> illegal c"
  using collapse_set[of "sub_illegal (replace_newlines (strip x))"] sub_illegal_clean[of "replace_newlines (strip x)"]
  by (auto simp: collapsed_def space_not_illegal)

lemma collapsed_hd: "collapsed x \<noteq> [] \<Longrightarrow> \<not> is_space (hd (collapsed x))"
proof -
  assume ne: "collapsed x \<noteq> []"
  then have s: "strip x \<noteq> []" by (auto simp: collapsed_def collapse_nil sub_illegal_def replace_newlines_def)
  then have h: "\<not> is_space (hd (strip x))" by (rule strip_hd)
  let ?u = "sub_illegal (replace_newlines (strip x))"
  from s h have "\<not> is_space (hd ?u)"
    by (cases "strip x") (auto simp: sub_illegal_def replace_newlines_def space_not_illegal)
  moreover from this ne have "hd (collapsed x) = hd ?u" unfolding collapsed_def by (intro collapse_hd)
  ultimately show ?thesis by simp
qed

lemma collapsed_single_spaced: "single_spaced (collapsed x)" by (simp add: collapsed_def collapse_single_spaced)


lemma collapsed_no_nl: "c \<in> set (collapsed x) \<Longrightarrow> c \<noteq> 0x0A"
  using collapsed_clean illegal_nl by blast

lemma sf_fix:
  assumes "single_spaced t" "\<forall>c\<in>set t. \<not> illegal c" "length t \<le> 180"
    and "t = [] \<or> (\<not> is_space (hd t) \<and> \<not> is_space (last t))"
  shows "safe_filename t = t"
proof -
  from assms(4) have 1: "strip t = t" by (rule strip_id)
  from assms(2) illegal_nl have "\<forall>c\<in>set t. c \<noteq> 0x0A" by blast
  then have 2: "replace_newlines t = t" by (rule replace_newlines_id)
  from assms(2) have 3: "sub_illegal t = t" by (rule sub_illegal_id)
  from assms(1) have 4: "collapse_ws t = t" by (rule single_spaced_fix)
  from 1 2 3 4 assms(3) show ?thesis by (simp add: safe_filename_def)
qed

lemma sf_trailing:
  assumes "single_spaced (t @ [b])" "\<forall>c\<in>set (t @ [b]). \<not> illegal c" "length (t @ [b]) \<le> 180"
    and "t \<noteq> []" "\<not> is_space (hd t)" "is_space b"
  shows "safe_filename (t @ [b]) = t"
proof -
  from assms(4) have "t @ [b] = butlast t @ [last t, b]" by simp
  with assms(1) have "single_spaced (butlast t @ [last t, b])" by metis
  then have l: "\<not> is_space (last t)" using assms(6) by (rule single_spaced_snoc)
  with assms have 1: "strip (t @ [b]) = t" by (intro strip_trailing)
  from assms(1) have t: "single_spaced t" by (rule single_spaced_append)
  from assms(2) illegal_nl have "\<forall>c\<in>set t. c \<noteq> 0x0A" by auto
  then have 2: "replace_newlines t = t" by (rule replace_newlines_id)
  from assms(2) have 3: "sub_illegal t = t" by (intro sub_illegal_id) simp
  from t have 4: "collapse_ws t = t" by (rule single_spaced_fix)
  from 1 2 3 4 assms(3) show ?thesis by (simp add: safe_filename_def)
qed

lemma sf_single_spaced: "single_spaced (safe_filename x)"
  by (simp add: sf_collapsed single_spaced_take collapsed_single_spaced)

lemma sf_clean: "c \<in> set (safe_filename x) \<Longrightarrow> \<not> illegal c"
  by (auto simp: sf_collapsed dest: in_set_takeD collapsed_clean)

lemma sf_hd: "safe_filename x \<noteq> [] \<Longrightarrow> \<not> is_space (hd (safe_filename x))"
proof -
  assume ne: "safe_filename x \<noteq> []"
  then have "collapsed x \<noteq> []" by (auto simp: sf_collapsed)
  then have "\<not> is_space (hd (collapsed x))" by (rule collapsed_hd)
  moreover from ne have "hd (safe_filename x) = hd (collapsed x)" by (simp add: sf_collapsed)
  ultimately show ?thesis by simp
qed

lemma sf_twice:
  "safe_filename (safe_filename x) =
     (if safe_filename x \<noteq> [] \<and> last (safe_filename x) = 0x20
      then butlast (safe_filename x) else safe_filename x)"
proof -
  let ?y = "safe_filename x"
  have len: "length ?y \<le> 180" by (simp add: sf_collapsed)
  have cl: "\<forall>c\<in>set ?y. \<not> illegal c" using sf_clean by blast
  show ?thesis
  proof (cases "?y \<noteq> [] \<and> last ?y = 0x20")
    case True
    then have y: "?y = butlast ?y @ [0x20]" by (metis append_butlast_last_id)
    have "butlast ?y \<noteq> []"
    proof
      assume "butlast ?y = []"
      with y have "?y = [0x20]" by simp
      then have "hd ?y = 0x20" by simp
      with True sf_hd[of x] show False by (simp add: space_not_illegal)
    qed
    moreover from this y have "hd (butlast ?y) = hd ?y" by (metis hd_append2)
    with True sf_hd[of x] have "\<not> is_space (hd (butlast ?y))" by simp
    moreover have "single_spaced (butlast ?y @ [0x20])" using y sf_single_spaced[of x] by simp
    moreover have "\<forall>c\<in>set (butlast ?y @ [0x20]). \<not> illegal c" using y cl by metis
    moreover have "length (butlast ?y @ [0x20]) \<le> 180" using y len by metis
    ultimately have "safe_filename (butlast ?y @ [0x20]) = butlast ?y"
      by (intro sf_trailing) (simp_all add: space_not_illegal)
    with y True show ?thesis by (metis (full_types))
  next
    case False
    have "?y = [] \<or> (\<not> is_space (hd ?y) \<and> \<not> is_space (last ?y))"
    proof (cases "?y = []")
      case True then show ?thesis ..
    next
      case ne: False
      with False have "last ?y \<noteq> 0x20" by simp
      moreover have "last ?y \<in> set ?y" using ne by simp
      ultimately have "\<not> is_space (last ?y)" using single_spaced_space[OF sf_single_spaced[of x]] by blast
      with ne sf_hd[of x] show ?thesis by simp
    qed
    with sf_single_spaced[of x] cl len have "safe_filename ?y = ?y" by (intro sf_fix)
    with False show ?thesis by (simp only: if_False)
  qed
qed

lemma collapse_last: "s \<noteq> [] \<Longrightarrow> \<not> is_space (last s) \<Longrightarrow> last (collapse_ws s) = last s"
proof (induction s rule: collapse_ws.induct)
  case 1 then show ?case by simp
next
  case (2 c cs)
  show ?case
  proof (cases "is_space c")
    case True
    with 2(4) have ne: "cs \<noteq> []" by auto
    with 2(4) have l: "\<not> is_space (last cs)" by simp
    let ?r = "dropWhile is_space cs"
    from ne l have r: "?r \<noteq> []" by (metis dropWhile_eq_Nil_conv last_in_set)
    then have lr: "last ?r = last cs" by (metis last_appendR takeWhile_dropWhile_id)
    with 2(1)[OF True r] l have "last (collapse_ws ?r) = last cs" by simp
    moreover from r have "collapse_ws ?r \<noteq> []" by (simp add: collapse_nil)
    ultimately show ?thesis using True ne by simp
  next
    case False
    with 2 show ?thesis by (cases cs) (auto simp: collapse_nil)
  qed
qed

lemma strip_last: "strip s \<noteq> [] \<Longrightarrow> \<not> is_space (last (strip s))"
proof -
  assume ne: "strip s \<noteq> []"
  let ?d = "dropWhile is_space (rev (dropWhile is_space s))"
  from ne have d: "?d \<noteq> []" by (simp add: strip_def)
  then have "\<not> is_space (hd ?d)" by (rule hd_dropWhile_ns)
  moreover from d have "last (strip s) = hd ?d" unfolding strip_def by (simp only: last_rev)
  ultimately show ?thesis by simp
qed

lemma collapsed_last: "collapsed x \<noteq> [] \<Longrightarrow> \<not> is_space (last (collapsed x))"
proof -
  assume ne: "collapsed x \<noteq> []"
  then have s: "strip x \<noteq> []" by (auto simp: collapsed_def collapse_nil sub_illegal_def replace_newlines_def)
  then have h: "\<not> is_space (last (strip x))" by (rule strip_last)
  let ?u = "sub_illegal (replace_newlines (strip x))"
  from s have u: "?u \<noteq> []" by (simp add: sub_illegal_def replace_newlines_def)
  from s h have "\<not> is_space (last ?u)"
    by (auto simp: sub_illegal_def replace_newlines_def space_not_illegal last_map)
  with u show ?thesis unfolding collapsed_def by (simp add: collapse_last)
qed

lemma sf_short_idem: "length (safe_filename x) < 180 \<Longrightarrow> safe_filename (safe_filename x) = safe_filename x"
proof -
  assume "length (safe_filename x) < 180"
  then have e: "safe_filename x = collapsed x" by (simp add: sf_collapsed)
  have "collapsed x = [] \<or> (\<not> is_space (hd (collapsed x)) \<and> \<not> is_space (last (collapsed x)))"
    using collapsed_hd collapsed_last by blast
  moreover have "length (collapsed x) \<le> 180" using e sf_collapsed[of x] by (metis length_take min.cobounded2)
  ultimately have "safe_filename (collapsed x) = collapsed x" using collapsed_single_spaced collapsed_clean by (intro sf_fix) auto
  with e show ?thesis by simp
qed

lemma sf_take:
  assumes "single_spaced t" "\<forall>c\<in>set t. \<not> illegal c"
    and "t = [] \<or> (\<not> is_space (hd t) \<and> \<not> is_space (last t))"
  shows "safe_filename t = take 180 t"
proof -
  from assms(3) have 1: "strip t = t" by (rule strip_id)
  from assms(2) illegal_nl have "\<forall>c\<in>set t. c \<noteq> 0x0A" by blast
  then have 2: "replace_newlines t = t" by (rule replace_newlines_id)
  from assms(2) have 3: "sub_illegal t = t" by (rule sub_illegal_id)
  from assms(1) have 4: "collapse_ws t = t" by (rule single_spaced_fix)
  from 1 2 3 4 show ?thesis by (simp add: safe_filename_def)
qed

lemma single_spaced_long_name: "single_spaced (replicate n 0x61 @ [0x20, 0x62])"
  by (induction n) (simp_all add: is_space_def)

lemma long_name_value:
  "safe_filename (replicate 179 0x61 @ [0x20, 0x62]) = replicate 179 0x61 @ [0x20]"
proof -
  let ?X = "replicate 179 (0x61::nat) @ [0x20, 0x62]"
  have "\<forall>c\<in>set ?X. \<not> illegal c" by (auto simp: illegal_def illegal_chars_def)
  moreover have "?X = [] \<or> (\<not> is_space (hd ?X) \<and> \<not> is_space (last ?X))"
    by (simp add: is_space_def hd_append)
  ultimately have "safe_filename ?X = take 180 ?X" using single_spaced_long_name by (intro sf_take)
  then show ?thesis by simp
qed

text \<open>
  Claim C1, as the code has it. For every string \<open>x\<close>, \<open>safe_filename x\<close> contains
  none of the characters \<open>< > : " / \ | ? *\<close> and no control code point below
  \<open>0x20\<close>, and has at most 180 code points. Applying the function a second time
  removes the single trailing space that the cut at 180 code points may leave and changes
  nothing else; so the function is idempotent on every input whose result does not end in
  a space, in particular whenever the result is shorter than 180 code points. The copy in
  app.py, which also accepts \<open>None\<close>, has the same character and length bounds.
\<close>

theorem safe_filename_sanitizes:
  "(\<forall>c\<in>set (safe_filename x). \<not> illegal c) \<and>
   length (safe_filename x) \<le> 180 \<and>
   safe_filename (safe_filename x) =
     (if safe_filename x \<noteq> [] \<and> last (safe_filename x) = 0x20
      then butlast (safe_filename x) else safe_filename x) \<and>
   (length (safe_filename x) < 180 \<longrightarrow> safe_filename (safe_filename x) = safe_filename x) \<and>
   (\<forall>c\<in>set (app_safe_filename n). \<not> illegal c) \<and>
   length (app_safe_filename n) \<le> 180"
proof -
  have "\<forall>c\<in>set (safe_filename y). \<not> illegal c" for y using sf_clean by blast
  moreover have "length (safe_filename y) \<le> 180" for y by (simp add: sf_collapsed)
  ultimately show ?thesis
    using sf_twice[of x] sf_short_idem[of x] unfolding app_safe_filename_def by blast
qed

theorem safe_filename_sanitizes_witness:
  "safe_filename (ascii ''  re<port:  v1?.pdf '') = ascii ''re_port_ v1_.pdf'' \<and>
   length (ascii ''re_port_ v1_.pdf'') < 180 \<and>
   safe_filename (ascii ''re_port_ v1_.pdf'') = ascii ''re_port_ v1_.pdf''"
proof -
  have v: "safe_filename (ascii ''  re<port:  v1?.pdf '') = ascii ''re_port_ v1_.pdf''"
    by (simp add: ascii_def safe_filename_def strip_def is_space_def replace_newlines_def
        sub_illegal_def illegal_def illegal_chars_def)
  have l: "length (ascii ''re_port_ v1_.pdf'') < 180" by (simp add: ascii_def)
  from safe_filename_sanitizes[of "ascii ''  re<port:  v1?.pdf ''" None] show ?thesis
    unfolding v using l by blast
qed

text \<open>
  Claim C1, as stated, fails: a name of 179 letters \<open>a\<close>, a space and a letter \<open>b\<close>
  is cut after the space, and the second application strips that space.
\<close>

theorem safe_filename_not_idempotent:
  "safe_filename (safe_filename (replicate 179 0x61 @ [0x20, 0x62]))
     \<noteq> safe_filename (replicate 179 0x61 @ [0x20, 0x62])"
proof -
  have "safe_filename (replicate 179 0x61 @ [0x20]) = replicate 179 0x61"
    using sf_twice[of "replicate 179 0x61 @ [0x20, 0x62]"] by (simp add: long_name_value)
  then show ?thesis by (simp add: long_name_value)
qed

section \<open>Properties of guess\_downloader\<close>

lemma py_in_sublist: "py_in xs ys \<longleftrightarrow> sublist xs ys"
  by (induction ys) (auto simp: sublist_Cons_right)

lemmas str_eval = ascii_def strip_def is_space_def lower_def lower_cp_def

text \<open>
  Claim C8, as the code has it. The tests run in the order pixeldrain.com,
  drive.google.com, mega.nz, youtu, on the stripped and lowered URL. So a URL with a
  YouTube marker is classified \<open>youtube\<close> when it contains none of the three earlier
  markers; a URL with \<open>mega.nz\<close> is classified \<open>mega\<close> when it contains neither
  \<open>pixeldrain.com\<close> nor \<open>drive.google.com\<close>; a URL with none of the four markers is
  \<open>unknown\<close>. The three URLs of the specification are classified as it says.
\<close>

theorem guess_downloader_classifies:
  "(py_in (ascii ''youtu'') (lower tbl (strip url)) \<and>
    \<not> py_in (ascii ''pixeldrain.com'') (lower tbl (strip url)) \<and>
    \<not> py_in (ascii ''drive.google.com'') (lower tbl (strip url)) \<and>
    \<not> py_in (ascii ''mega.nz'') (lower tbl (strip url))
      \<longrightarrow> guess_downloader tbl url = ascii ''youtube'') \<and>
   (py_in (ascii ''mega.nz'') (lower tbl (strip url)) \<and>
    \<not> py_in (ascii ''pixeldrain.com'') (lower tbl (strip url)) \<and>
    \<not> py_in (ascii ''drive.google.com'') (lower tbl (strip url))
      \<longrightarrow> guess_downloader tbl url = ascii ''mega'') \<and>
   (\<not> py_in (ascii ''youtu'') (lower tbl (strip url)) \<and>
    \<not> py_in (ascii ''pixeldrain.com'') (lower tbl (strip url)) \<and>
    \<not> py_in (ascii ''drive.google.com'') (lower tbl (strip url)) \<and>
    \<not> py_in (ascii ''mega.nz'') (lower tbl (strip url))
      \<longrightarrow> guess_downloader tbl url = ascii ''unknown'') \<and>
   guess_downloader tbl (ascii ''https://youtu.be/abc123'') = ascii ''youtube'' \<and>
   guess_downloader tbl (ascii ''https://mega.nz/file/xyz'') = ascii ''mega'' \<and>
   guess_downloader tbl (ascii ''https://example.com/file'') = ascii ''unknown''"
proof (intro conjI impI)
  have youtube_com: "py_in (ascii ''youtube.com'') u \<Longrightarrow> py_in (ascii ''youtu'') u" for u
    unfolding py_in_sublist
    by (rule sublist_order.order_trans[of _ "ascii ''youtube.com''"])
       (simp_all add: ascii_def sublist_def, metis append_Nil)
  {
    assume "py_in (ascii ''youtu'') (lower tbl (strip url)) \<and>
      \<not> py_in (ascii ''pixeldrain.com'') (lower tbl (strip url)) \<and>
      \<not> py_in (ascii ''drive.google.com'') (lower tbl (strip url)) \<and>
      \<not> py_in (ascii ''mega.nz'') (lower tbl (strip url))"
    then show "guess_downloader tbl url = ascii ''youtube''"
      by (simp add: guess_downloader_def)
  next
    assume "py_in (ascii ''mega.nz'') (lower tbl (strip url)) \<and>
      \<not> py_in (ascii ''pixeldrain.com'') (lower tbl (strip url)) \<and>
      \<not> py_in (ascii ''drive.google.com'') (lower tbl (strip url))"
    then show "guess_downloader tbl url = ascii ''mega''"
      by (simp add: guess_downloader_def)
  next
    assume "\<not> py_in (ascii ''youtu'') (lower tbl (strip url)) \<and>
      \<not> py_in (ascii ''pixeldrain.com'') (lower tbl (strip url)) \<and>
      \<not> py_in (ascii ''drive.google.com'') (lower tbl (strip url)) \<and>
      \<not> py_in (ascii ''mega.nz'') (lower tbl (strip url))"
    then show "guess_downloader tbl url = ascii ''unknown''"
      using youtube_com[of "lower tbl (strip url)"] by (auto simp add: guess_downloader_def)
  next
    show "guess_downloader tbl (ascii ''https://youtu.be/abc123'') = ascii ''youtube''"
      by (simp add: str_eval guess_downloader_def)
  next
    show "guess_downloader tbl (ascii ''https://mega.nz/file/xyz'') = ascii ''mega''"
      by (simp add: str_eval guess_downloader_def)
  next
    show "guess_downloader tbl (ascii ''https://example.com/file'') = ascii ''unknown''"
      by (simp add: str_eval guess_downloader_def)
  }
qed

theorem guess_downloader_classifies_witness:
  "py_in (ascii ''youtu'') (lower (\<lambda>c. [c]) (strip (ascii '' HTTPS://WWW.YouTube.com/watch?v=abc ''))) \<and>
   guess_downloader (\<lambda>c. [c]) (ascii '' HTTPS://WWW.YouTube.com/watch?v=abc '') = ascii ''youtube''"
proof -
  have u: "lower (\<lambda>c. [c]) (strip (ascii '' HTTPS://WWW.YouTube.com/watch?v=abc ''))
             = ascii ''https://www.youtube.com/watch?v=abc''"
    by (simp add: str_eval)
  have p: "py_in (ascii ''youtu'') (ascii ''https://www.youtube.com/watch?v=abc'') \<and>
    \<not> py_in (ascii ''pixeldrain.com'') (ascii ''https://www.youtube.com/watch?v=abc'') \<and>
    \<not> py_in (ascii ''drive.google.com'') (ascii ''https://www.youtube.com/watch?v=abc'') \<and>
    \<not> py_in (ascii ''mega.nz'') (ascii ''https://www.youtube.com/watch?v=abc'')"
    by (simp add: ascii_def)
  from guess_downloader_classifies[of "\<lambda>c. [c]" "ascii '' HTTPS://WWW.YouTube.com/watch?v=abc ''"]
  show ?thesis unfolding u using p by blast
qed

text \<open>
  Claim C8, as stated, fails: a URL that contains a YouTube marker and also \<open>mega.nz\<close>
  is classified \<open>mega\<close>, because the \<open>mega.nz\<close> test comes first.
\<close>

theorem guess_downloader_youtube_marker_not_youtube:
  "py_in (ascii ''youtu'') (lower (\<lambda>c. [c]) (strip (ascii ''https://youtu.be/mega.nz''))) \<and>
   guess_downloader (\<lambda>c. [c]) (ascii ''https://youtu.be/mega.nz'') \<noteq> ascii ''youtube''"
  by (simp add: str_eval guess_downloader_def)

section \<open>The message handler: proxy input and the rename session\<close>

lemmas prog_defs = ret_def raise_def bind_def seq_def modify_def tg_def lib_def lib_unit_def
  on_disk_def message_answer_def message_reply_def set_state_def try_finally_def try_except_def

lemmas match_eval = PROXY_RE_match_def ci_prefix_def ci_match_def ascii_def strip_def is_space_def

lemmas fixture_defs = plain_env_def empty_world_def in_state_def text_message_def
  document_message_def default_settings_def get_state_def text_or_empty_def

lemma proxy_accept:
  assumes "action (get_state w (from_user m)) = Some Proxy_wait"
    and "PROXY_RE_match (strip (text_or_empty m))"
    and "handle_message S E tbl m w = (r, w')"
  shows "USER_PROXY w' = (USER_PROXY w)(from_user m \<mapsto> strip (text_or_empty m))"
    and "USER_STATE w' = (USER_STATE w)
           (from_user m \<mapsto> \<lparr>menu = Proxy_menu, action = None, rename_path = None\<rparr>)"
  using assms
  by (auto simp: handle_message_def proxy_wait_branch_def prog_defs Let_def split: option.splits)

lemma proxy_reject:
  assumes "action (get_state w (from_user m)) = Some Proxy_wait"
    and "\<not> PROXY_RE_match (strip (text_or_empty m))"
    and "handle_message S E tbl m w = (r, w')"
  shows "w' = w\<lparr>trace := trace w @
           [Reply (chat m) (Txt ''Proxy must start with http://, https://, or socks5://'') No_kb]\<rparr>"
  using assms
  by (auto simp: handle_message_def proxy_wait_branch_def prog_defs Let_def split: option.splits)

text \<open>
  Claim C6, as the code has it. In the state \<open>proxy_wait\<close> the text is stripped of
  surrounding whitespace first. If the stripped text matches the pattern, it is saved as
  the user's proxy and the session becomes \<open>{menu: proxy, action: none}\<close>; otherwise the
  only effect is the reply that repeats the rule: session, proxy, buffers and disk are
  unchanged. The texts \<open>ftp://x\<close>, the empty text and \<open>http//x\<close> do not match.
\<close>

theorem proxy_wait_validates:
  assumes "action (get_state w (from_user m)) = Some Proxy_wait"
    and "handle_message S E tbl m w = (r, w')"
  shows
    "(PROXY_RE_match (strip (text_or_empty m)) \<longrightarrow>
        USER_PROXY w' = (USER_PROXY w)(from_user m \<mapsto> strip (text_or_empty m)) \<and>
        USER_STATE w' = (USER_STATE w)
          (from_user m \<mapsto> \<lparr>menu = Proxy_menu, action = None, rename_path = None\<rparr>)) \<and>
     (\<not> PROXY_RE_match (strip (text_or_empty m)) \<longrightarrow>
        w' = w\<lparr>trace := trace w @
          [Reply (chat m) (Txt ''Proxy must start with http://, https://, or socks5://'') No_kb]\<rparr>) \<and>
     \<not> PROXY_RE_match (strip (ascii ''ftp://x'')) \<and>
     \<not> PROXY_RE_match (strip []) \<and>
     \<not> PROXY_RE_match (strip (ascii ''http//x''))"
proof -
  have "\<not> PROXY_RE_match (strip (ascii ''ftp://x''))" "\<not> PROXY_RE_match (strip [])"
    "\<not> PROXY_RE_match (strip (ascii ''http//x''))"
    by (simp_all add: match_eval)
  with proxy_accept[OF assms(1) _ assms(2)] proxy_reject[OF assms(1) _ assms(2)]
  show ?thesis by blast
qed

theorem proxy_wait_validates_witness:
  "action (get_state (in_state 7 Proxy_menu (Some Proxy_wait)) 7) = Some Proxy_wait \<and>
   PROXY_RE_match (strip (ascii ''Socks5://10.0.0.1:1080'')) \<and>
   USER_PROXY (snd (handle_message default_settings plain_env (\<lambda>c. [c])
       (text_message 7 ''Socks5://10.0.0.1:1080'') (in_state 7 Proxy_menu (Some Proxy_wait)))) 7
     = Some (ascii ''Socks5://10.0.0.1:1080'')"
proof -
  have a: "action (get_state (in_state 7 Proxy_menu (Some Proxy_wait))
             (from_user (text_message 7 ''Socks5://10.0.0.1:1080''))) = Some Proxy_wait"
    by (simp add: fixture_defs)
  have s: "strip (text_or_empty (text_message 7 ''Socks5://10.0.0.1:1080''))
             = ascii ''Socks5://10.0.0.1:1080''"
    by (simp add: fixture_defs ascii_def strip_def is_space_def)
  have p: "PROXY_RE_match (strip (ascii ''Socks5://10.0.0.1:1080''))"
    by (simp add: match_eval)
  have p': "PROXY_RE_match (ascii ''Socks5://10.0.0.1:1080'')"
    by (simp add: match_eval)
  have u: "from_user (text_message 7 ''Socks5://10.0.0.1:1080'') = 7"
    by (simp add: text_message_def)
  from proxy_wait_validates[OF a surjective_pairing, of default_settings plain_env "\<lambda>c. [c]"]
  show ?thesis unfolding s u using p p' a by (simp add: fixture_defs)
qed

text \<open>
  Claim C6, as stated, fails: the text \<open>" http://x"\<close> does not match the anchored
  pattern, since it starts with a space, and yet it is accepted, because the handler
  matches the stripped text.
\<close>

theorem proxy_wait_accepts_unmatched_text:
  "\<not> PROXY_RE_match (ascii '' http://x'') \<and>
   USER_PROXY (snd (handle_message default_settings plain_env (\<lambda>c. [c])
       (text_message 7 '' http://x'') (in_state 7 Proxy_menu (Some Proxy_wait)))) 7
     = Some (ascii ''http://x'')"
proof -
  have a: "action (get_state (in_state 7 Proxy_menu (Some Proxy_wait))
             (from_user (text_message 7 '' http://x''))) = Some Proxy_wait"
    by (simp add: fixture_defs)
  have s: "strip (text_or_empty (text_message 7 '' http://x'')) = ascii ''http://x''"
    by (simp add: fixture_defs ascii_def strip_def is_space_def)
  have p: "PROXY_RE_match (strip (text_or_empty (text_message 7 '' http://x'')))"
    unfolding s by (simp add: match_eval)
  have n: "\<not> PROXY_RE_match (ascii '' http://x'')"
    by (simp add: match_eval)
  from proxy_accept(1)[OF a p surjective_pairing, of default_settings plain_env "\<lambda>c. [c]"] n
  show ?thesis unfolding s by (simp add: fixture_defs)
qed

text \<open>
  Claim C5. In the state \<open>rename_wait_newname\<close> with no stored \<open>rename_path\<close>, a text
  message that carries a new name (a text that is not blank) gets the reply
  \<open>Rename session expired\<close> and nothing else leaves the program: no rename is
  attempted and the disk is unchanged, and the session becomes
  \<open>{menu: file, action: none}\<close>.
\<close>

theorem rename_session_expired:
  assumes "action (get_state w (from_user m)) = Some Rename_wait_newname"
    and "rename_path (get_state w (from_user m)) = None"
    and "msg_document m = None" and "strip (text_or_empty m) \<noteq> []"
    and "handle_message S E tbl m w = (r, w')"
  shows "trace w' = trace w @ [Reply (chat m) (Txt ''Rename session expired. Try again.'') No_kb] \<and>
         USER_STATE w' = (USER_STATE w)
           (from_user m \<mapsto> \<lparr>menu = File_menu, action = None, rename_path = None\<rparr>) \<and>
         disk w' = disk w"
  using assms
  by (auto simp: handle_message_def rename_newname_branch_def prog_defs Let_def
      split: option.splits)

theorem rename_session_expired_witness:
  "action (get_state (in_state 7 File_menu (Some Rename_wait_newname)) 7) = Some Rename_wait_newname \<and>
   rename_path (get_state (in_state 7 File_menu (Some Rename_wait_newname)) 7) = None \<and>
   strip (ascii ''new.pdf'') \<noteq> [] \<and>
   disk (snd (handle_message default_settings plain_env (\<lambda>c. [c])
       (text_message 7 ''new.pdf'') (in_state 7 File_menu (Some Rename_wait_newname)))) = Dir 0 []"
proof -
  let ?w = "in_state 7 File_menu (Some Rename_wait_newname)"
  let ?m = "text_message 7 ''new.pdf''"
  have a: "action (get_state ?w (from_user ?m)) = Some Rename_wait_newname"
    and b: "rename_path (get_state ?w (from_user ?m)) = None"
    and c: "msg_document ?m = None"
    by (simp_all add: fixture_defs)
  have s: "strip (text_or_empty ?m) = ascii ''new.pdf''"
    by (simp add: fixture_defs ascii_def strip_def is_space_def)
  have d: "strip (text_or_empty ?m) \<noteq> []" unfolding s by (simp add: ascii_def)
  have e: "strip (ascii ''new.pdf'') \<noteq> []"
    by (simp add: ascii_def strip_def is_space_def)
  from rename_session_expired[OF a b c d surjective_pairing,
      of default_settings plain_env "\<lambda>c. [c]"] a b e
  show ?thesis by (simp add: fixture_defs)
qed

section \<open>The frame calculus\<close>

lemma preservesD: "preserves f m \<Longrightarrow> f (snd (m w)) = f w"
  by (simp add: preserves_def)

lemma preservesI: "(\<And>w. f (snd (m w)) = f w) \<Longrightarrow> preserves f m"
  by (simp add: preserves_def)

lemma ignores_ioD: "ignores_io f \<Longrightarrow> f (w\<lparr>trace := t\<rparr>) = f w" "ignores_io f \<Longrightarrow> f (w\<lparr>disk := d\<rparr>) = f w"
  by (simp_all add: ignores_io_def)

lemma ignores_io_fields [simp]:
  "ignores_io USER_STATE" "ignores_io USER_PROXY" "ignores_io MERGE_BUCKET" "ignores_io IMG_BUCKET"
  "ignores_io (\<lambda>w. MERGE_BUCKET w u)" "ignores_io (\<lambda>w. IMG_BUCKET w u)"
  by (simp_all add: ignores_io_def)

lemma preserves_ret [intro!, simp]: "preserves f (ret x)"
  by (simp add: preserves_def ret_def)

lemma preserves_raise [intro!, simp]: "preserves f (raise e)"
  by (simp add: preserves_def raise_def)

lemma preserves_bind [intro!]:
  assumes "preserves f a" "\<And>x. preserves f (g x)"
  shows "preserves f (bind a g)"
proof (rule preservesI)
  fix w
  show "f (snd (bind a g w)) = f w"
  proof (cases "a w")
    case (Pair r w1)
    then have 1: "f w1 = f w" using preservesD[OF assms(1), of w] by simp
    show ?thesis
    proof (cases r)
      case (Inl e) with Pair 1 show ?thesis by (simp add: bind_def)
    next
      case (Inr x)
      with Pair 1 preservesD[OF assms(2), of x w1] show ?thesis by (simp add: bind_def)
    qed
  qed
qed

lemma preserves_seq [intro!]: "preserves f a \<Longrightarrow> preserves f b \<Longrightarrow> preserves f (seq a b)"
  unfolding seq_def by (rule preserves_bind)

lemma preserves_block: "(\<And>m. m \<in> set ms \<Longrightarrow> preserves f m) \<Longrightarrow> preserves f (block ms)"
  by (induction ms) auto

lemma preserves_for_each [intro!]: "(\<And>x. preserves f (g x)) \<Longrightarrow> preserves f (for_each xs g)"
  unfolding for_each_def by (rule preserves_block) auto

lemma preserves_try_finally [intro!]:
  assumes "preserves f a" "preserves f fin"
  shows "preserves f (try_finally a fin)"
proof (rule preservesI)
  fix w
  obtain r w1 where a: "a w = (r, w1)" by (cases "a w")
  obtain r2 w2 where b: "fin w1 = (r2, w2)" by (cases "fin w1")
  from a preservesD[OF assms(1), of w] have "f w1 = f w" by simp
  moreover from b preservesD[OF assms(2), of w1] have "f w2 = f w1" by simp
  ultimately show "f (snd (try_finally a fin w)) = f w"
    using a b by (cases r2) (simp_all add: try_finally_def)
qed

lemma preserves_try_except [intro!]:
  assumes "preserves f a" "\<And>e. preserves f (h e)"
  shows "preserves f (try_except a h)"
proof (rule preservesI)
  fix w
  obtain r w1 where a: "a w = (r, w1)" by (cases "a w")
  from a preservesD[OF assms(1), of w] have 1: "f w1 = f w" by simp
  show "f (snd (try_except a h w)) = f w"
  proof (cases r)
    case (Inl e)
    with a 1 preservesD[OF assms(2), of e w1] show ?thesis by (simp add: try_except_def)
  next
    case (Inr x) with a 1 show ?thesis by (simp add: try_except_def)
  qed
qed

lemma preserves_tg [intro!]: "ignores_io f \<Longrightarrow> preserves f (tg E c)"
  by (auto simp: preserves_def tg_def Let_def ignores_ioD split: option.splits)

lemma preserves_lib [intro!]: "ignores_io f \<Longrightarrow> preserves f (lib E c)"
  by (auto simp: preserves_def lib_def Let_def ignores_ioD split: sum.splits)

lemma preserves_lib_unit [intro!]: "ignores_io f \<Longrightarrow> preserves f (lib_unit E c)"
  unfolding lib_unit_def by auto

lemma preserves_on_disk [intro!]: "ignores_io f \<Longrightarrow> preserves f (on_disk g)"
  by (auto simp: preserves_def on_disk_def ignores_ioD split: sum.splits)

lemma preserves_message [intro!]:
  "ignores_io f \<Longrightarrow> preserves f (message_answer E m n kb)"
  "ignores_io f \<Longrightarrow> preserves f (message_reply E m n kb)"
  by (auto simp: message_answer_def message_reply_def)

lemma preserves_mkdir_parents [intro!]: "ignores_io f \<Longrightarrow> preserves f (mkdir_parents E p)"
  by (auto simp: preserves_def mkdir_parents_def on_disk_def ignores_ioD split: sum.splits)

lemma preserves_dirs [intro!]:
  assumes "ignores_io f"
  shows "preserves f (ensure_dir E p)" "preserves f (user_dir E b u)"
    "preserves f (work_dir E b u)" "preserves f (downloads_dir E b u)"
    "preserves f (output_dir E b u)"
  using assms
  by (auto simp: ensure_dir_def user_dir_def work_dir_def downloads_dir_def output_dir_def)

lemma preserves_rmtree [intro!]: "ignores_io f \<Longrightarrow> preserves f (rmtree E p)"
  by (auto simp: preserves_def rmtree_def Let_def ignores_ioD split: option.splits)

lemma cleanup_loop_preserves:
  "ignores_io f \<Longrightarrow> f (snd (cleanup_loop E base cutoff xs n w)) = f w"
proof (induction xs arbitrary: n w)
  case Nil then show ?case by simp
next
  case (Cons x xs)
  then show ?case using preservesD[OF preserves_rmtree[OF Cons.prems], of E "base @ [x]" w]
    by (simp add: Let_def split: sum.splits)
qed

lemma preserves_cleanup_old [intro!]: "ignores_io f \<Longrightarrow> preserves f (cleanup_old E base h)"
  by (auto simp: preserves_def cleanup_old_def Let_def cleanup_loop_preserves
      split: option.splits node.splits sum.splits)

lemma preserves_zf_write [intro!]: "ignores_io f \<Longrightarrow> preserves f (zf_write E out src arc)"
  by (auto simp: preserves_def zf_write_def Let_def on_disk_def ignores_ioD
      split: option.splits sum.splits)

lemma preserves_zip_one [intro!]: "ignores_io f \<Longrightarrow> preserves f (zip_one E out p)"
proof (rule preservesI)
  fix w assume io: "ignores_io f"
  have "preserves f (for_each xs (\<lambda>sub. zf_write E out sub (g sub)))" for xs g
    by (rule preserves_for_each) (rule preserves_zf_write[OF io])
  from preservesD[OF this] preservesD[OF preserves_zf_write[OF io]]
  show "f (snd (zip_one E out p w)) = f w"
    unfolding zip_one_def by simp
qed

lemma preserves_zip_paths [intro!]: "ignores_io f \<Longrightarrow> preserves f (zip_paths E ps out)"
proof -
  assume io: "ignores_io f"
  have "preserves f (\<lambda>w. on_disk (write_file (clock E (trace w)) out (Archive [])) w)"
    using io by (auto simp: preserves_def on_disk_def ignores_ioD split: sum.splits)
  with io show ?thesis unfolding zip_paths_def by auto
qed

lemma preserves_utils [intro!]:
  assumes "ignores_io f"
  shows "preserves f (unzip_to_dir E z d)" "preserves f (text_to_pdf E t out)"
    "preserves f (images_to_pdf E ps out)" "preserves f (merge_pdfs E ps out)"
  using assms
  by (auto simp: unzip_to_dir_def text_to_pdf_def images_to_pdf_def merge_pdfs_def)

lemma preserves_features [intro!]:
  assumes "ignores_io f"
  shows "preserves f (do_zip E ps out)" "preserves f (do_unzip E z d)"
    "preserves f (do_text_to_pdf E t out)" "preserves f (do_images_to_pdf E ps out)"
    "preserves f (do_merge_pdfs E ps out)" "preserves f (do_rename E p n)"
  using assms
  by (auto simp: do_zip_def do_unzip_def do_text_to_pdf_def do_images_to_pdf_def
      do_merge_pdfs_def do_rename_def Let_def split: sum.splits)

lemma preserves_download [intro!]:
  "ignores_io f \<Longrightarrow> preserves f (download_telegram_file S E m dest)"
  by (auto simp: download_telegram_file_def Let_def split: option.splits)

lemma preserves_send_file [intro!]: "ignores_io f \<Longrightarrow> preserves f (send_file E c p cap)"
proof (rule preservesI)
  fix w assume io: "ignores_io f"
  show "f (snd (send_file E c p cap w)) = f w"
    unfolding send_file_def using preservesD[OF preserves_tg[OF io]] by simp
qed

section \<open>What the handlers leave alone\<close>

lemma ignores_sessionD:
  "ignores_session f \<Longrightarrow> ignores_io f"
  "ignores_session f \<Longrightarrow> f (w\<lparr>USER_STATE := g\<rparr>) = f w"
  "ignores_session f \<Longrightarrow> f (w\<lparr>USER_PROXY := h\<rparr>) = f w"
  by (simp_all add: ignores_session_def)

lemma ignores_session_fields [simp]:
  "ignores_session MERGE_BUCKET" "ignores_session IMG_BUCKET"
  "ignores_session (\<lambda>w. MERGE_BUCKET w u)" "ignores_session (\<lambda>w. IMG_BUCKET w u)"
  by (simp_all add: ignores_session_def ignores_io_def)

lemma preserves_set_state [intro!]: "ignores_session f \<Longrightarrow> preserves f (set_state u mn a x)"
  by (simp add: preserves_def set_state_def modify_def ignores_sessionD)

lemma preserves_start: "ignores_session f \<Longrightarrow> preserves f (start S E m)"
  unfolding start_def by (auto dest: ignores_sessionD(1))

lemma preserves_menu_nav: "ignores_session f \<Longrightarrow> preserves f (menu_nav E q)"
  unfolding menu_nav_def Let_def by (auto dest: ignores_sessionD(1))

lemma preserves_dl_actions: "ignores_session f \<Longrightarrow> preserves f (dl_actions E q)"
  unfolding dl_actions_def Let_def by (auto dest: ignores_sessionD(1))

lemma preserves_proxy_actions: "ignores_session f \<Longrightarrow> preserves f (proxy_actions E q)"
proof -
  assume s: "ignores_session f"
  then have io: "ignores_io f" by (rule ignores_sessionD)
  have 1: "preserves f (modify (\<lambda>w. w\<lparr>USER_PROXY := (USER_PROXY w)(u := None)\<rparr>))" for u
    using s by (simp add: preserves_def modify_def ignores_sessionD)
  have 2: "preserves f (\<lambda>w. tg E (Answer c (Current_proxy (USER_PROXY w u)) No_kb) w)" for c u
    using io by (auto simp: preserves_def tg_def Let_def ignores_ioD split: option.splits)
  show ?thesis unfolding proxy_actions_def Let_def using s io 1 2 by auto
qed


lemma preserves_world_dep: "(\<And>w0. preserves f (g w0)) \<Longrightarrow> preserves f (\<lambda>w. g w w)"
  by (simp add: preserves_def)

lemma preserves_bucket_modify:
  "(\<And>w. f (g w) = f w) \<Longrightarrow> preserves f (modify g)"
  by (simp add: preserves_def modify_def)

lemma preserves_file_actions:
  assumes "ignores_session f"
    and "after_colon (cq_data q) = ascii ''mergepdf'' \<Longrightarrow>
           (\<And>w. f (w\<lparr>MERGE_BUCKET := (MERGE_BUCKET w)(cq_from_user q \<mapsto> [])\<rparr>) = f w)"
    and "after_colon (cq_data q) = ascii ''img2pdf'' \<Longrightarrow>
           (\<And>w. f (w\<lparr>IMG_BUCKET := (IMG_BUCKET w)(cq_from_user q \<mapsto> [])\<rparr>) = f w)"
  shows "preserves f (file_actions E q)"
  unfolding file_actions_def Let_def using assms
  by (auto dest: ignores_sessionD(1) intro!: preserves_bucket_modify)

lemma preserves_merge_controls:
  assumes "ignores_session f"
    and "after_colon (cq_data q) = ascii ''clear'' \<Longrightarrow>
           (\<And>w. f (w\<lparr>MERGE_BUCKET := (MERGE_BUCKET w)(cq_from_user q \<mapsto> [])\<rparr>) = f w)"
    and "after_colon (cq_data q) = ascii ''cancel'' \<or> after_colon (cq_data q) = ascii ''done'' \<Longrightarrow>
           (\<And>w. f (w\<lparr>MERGE_BUCKET := (MERGE_BUCKET w)(cq_from_user q := None)\<rparr>) = f w)"
  shows "preserves f (merge_controls S E q)"
proof (rule preservesI)
  fix w
  from assms(1) have io: "ignores_io f" by (rule ignores_sessionD)
  let ?cmd = "after_colon (cq_data q)"
  consider (c_clear) "?cmd = ascii ''clear''"
    | (c_cancel) "?cmd \<noteq> ascii ''clear''" "?cmd = ascii ''cancel''"
    | (c_done) "?cmd \<noteq> ascii ''clear''" "?cmd \<noteq> ascii ''cancel''" "?cmd = ascii ''done''"
    | (c_other) "?cmd \<noteq> ascii ''clear''" "?cmd \<noteq> ascii ''cancel''" "?cmd \<noteq> ascii ''done''"
    by blast
  then show "f (snd (merge_controls S E q w)) = f w"
  proof cases
    case c_clear
    have "preserves f (seq (modify (\<lambda>w. w\<lparr>MERGE_BUCKET := (MERGE_BUCKET w)(cq_from_user q \<mapsto> [])\<rparr>))
       (seq (tg E (Answer (cq_chat q) (Txt ''Merge list cleared. Send PDFs again.'') No_kb))
            (tg E (Callback_answer (cq_from_user q)))))"
      using io assms(2)[OF c_clear] by (auto intro!: preserves_bucket_modify)
    from preservesD[OF this] c_clear show ?thesis by (simp add: merge_controls_def Let_def)
  next
    case c_cancel
    have "preserves f (seq (modify (\<lambda>w. w\<lparr>MERGE_BUCKET := (MERGE_BUCKET w)(cq_from_user q := None)\<rparr>))
       (seq (set_state (cq_from_user q) File_menu None None)
       (seq (tg E (Answer (cq_chat q) (Txt ''Merge cancelled.'') File_menu_kb))
            (tg E (Callback_answer (cq_from_user q))))))"
      using io assms(1) assms(3) c_cancel by (auto intro!: preserves_bucket_modify)
    from preservesD[OF this] c_cancel show ?thesis by (simp add: merge_controls_def Let_def)
  next
    case c_done
    have p: "preserves f (modify (\<lambda>w. w\<lparr>MERGE_BUCKET := (MERGE_BUCKET w)(cq_from_user q := None)\<rparr>))"
      using assms(3) c_done by (auto intro!: preserves_bucket_modify)
    have 1: "preserves f (seq (tg E (Answer (cq_chat q) (Txt ''Send at least 2 PDFs before merging.'') No_kb))
               (tg E (Callback_answer (cq_from_user q))))"
      using io by auto
    have 2: "preserves f (bind (output_dir E (base_dir S) (cq_from_user q)) (\<lambda>odir.
             let out = join odir (safe_filename (ascii ''merged.pdf'')) in
             seq (try_finally
                    (seq (tg E (Answer (cq_chat q) (Txt ''Merging PDFs...'') No_kb))
                    (seq (bind (do_merge_pdfs E pdfs out) (\<lambda>_. ret ()))
                         (send_file E (cq_chat q) out ''Merged PDF'')))
                    (modify (\<lambda>w. w\<lparr>MERGE_BUCKET := (MERGE_BUCKET w)(cq_from_user q := None)\<rparr>)))
            (seq (set_state (cq_from_user q) File_menu None None)
                 (tg E (Callback_answer (cq_from_user q))))))" for pdfs
      using io assms(1) p unfolding Let_def by auto
    from preservesD[OF 1] preservesD[OF 2] c_done show ?thesis
      by (simp add: merge_controls_def Let_def)
  next
    case c_other
    from preservesD[OF preserves_tg[OF io]] c_other show ?thesis
      by (simp add: merge_controls_def Let_def)
  qed
qed

lemma preserves_imgpdf_controls:
  assumes "ignores_session f"
    and "after_colon (cq_data q) = ascii ''clear'' \<Longrightarrow>
           (\<And>w. f (w\<lparr>IMG_BUCKET := (IMG_BUCKET w)(cq_from_user q \<mapsto> [])\<rparr>) = f w)"
    and "after_colon (cq_data q) = ascii ''cancel'' \<or> after_colon (cq_data q) = ascii ''done'' \<Longrightarrow>
           (\<And>w. f (w\<lparr>IMG_BUCKET := (IMG_BUCKET w)(cq_from_user q := None)\<rparr>) = f w)"
  shows "preserves f (imgpdf_controls S E q)"
proof (rule preservesI)
  fix w
  from assms(1) have io: "ignores_io f" by (rule ignores_sessionD)
  let ?cmd = "after_colon (cq_data q)"
  consider (c_clear) "?cmd = ascii ''clear''"
    | (c_cancel) "?cmd \<noteq> ascii ''clear''" "?cmd = ascii ''cancel''"
    | (c_done) "?cmd \<noteq> ascii ''clear''" "?cmd \<noteq> ascii ''cancel''" "?cmd = ascii ''done''"
    | (c_other) "?cmd \<noteq> ascii ''clear''" "?cmd \<noteq> ascii ''cancel''" "?cmd \<noteq> ascii ''done''"
    by blast
  then show "f (snd (imgpdf_controls S E q w)) = f w"
  proof cases
    case c_clear
    have "preserves f (seq (modify (\<lambda>w. w\<lparr>IMG_BUCKET := (IMG_BUCKET w)(cq_from_user q \<mapsto> [])\<rparr>))
       (seq (tg E (Answer (cq_chat q) (Txt ''Image list cleared. Send images again.'') No_kb))
            (tg E (Callback_answer (cq_from_user q)))))"
      using io assms(2)[OF c_clear] by (auto intro!: preserves_bucket_modify)
    from preservesD[OF this] c_clear show ?thesis by (simp add: imgpdf_controls_def Let_def)
  next
    case c_cancel
    have "preserves f (seq (modify (\<lambda>w. w\<lparr>IMG_BUCKET := (IMG_BUCKET w)(cq_from_user q := None)\<rparr>))
       (seq (set_state (cq_from_user q) File_menu None None)
       (seq (tg E (Answer (cq_chat q) (Txt ''Image->PDF cancelled.'') File_menu_kb))
            (tg E (Callback_answer (cq_from_user q))))))"
      using io assms(1) assms(3) c_cancel by (auto intro!: preserves_bucket_modify)
    from preservesD[OF this] c_cancel show ?thesis by (simp add: imgpdf_controls_def Let_def)
  next
    case c_done
    have p: "preserves f (modify (\<lambda>w. w\<lparr>IMG_BUCKET := (IMG_BUCKET w)(cq_from_user q := None)\<rparr>))"
      using assms(3) c_done by (auto intro!: preserves_bucket_modify)
    have 1: "preserves f (seq (tg E (Answer (cq_chat q) (Txt ''Send at least 1 image first.'') No_kb))
               (tg E (Callback_answer (cq_from_user q))))"
      using io by auto
    have 2: "preserves f (bind (output_dir E (base_dir S) (cq_from_user q)) (\<lambda>odir.
             let out = join odir (safe_filename (ascii ''images.pdf'')) in
             seq (try_finally
                    (seq (tg E (Answer (cq_chat q) (Txt ''Converting images to PDF...'') No_kb))
                    (seq (bind (do_images_to_pdf E pdfs out) (\<lambda>_. ret ()))
                         (send_file E (cq_chat q) out ''Image -> PDF'')))
                    (modify (\<lambda>w. w\<lparr>IMG_BUCKET := (IMG_BUCKET w)(cq_from_user q := None)\<rparr>)))
            (seq (set_state (cq_from_user q) File_menu None None)
                 (tg E (Callback_answer (cq_from_user q))))))" for pdfs
      using io assms(1) p unfolding Let_def by auto
    from preservesD[OF 1] preservesD[OF 2] c_done show ?thesis
      by (simp add: imgpdf_controls_def Let_def)
  next
    case c_other
    from preservesD[OF preserves_tg[OF io]] c_other show ?thesis
      by (simp add: imgpdf_controls_def Let_def)
  qed
qed


lemma preserves_ite:
  "preserves f a \<Longrightarrow> preserves f b \<Longrightarrow> preserves f (\<lambda>w. if c w then a w else b w)"
  by (simp add: preserves_def)

lemma preserves_proxy_wait_branch:
  "ignores_session f \<Longrightarrow> preserves f (proxy_wait_branch E m)"
proof -
  assume s: "ignores_session f"
  have "preserves f (modify (\<lambda>w. w\<lparr>USER_PROXY := (USER_PROXY w)(u \<mapsto> p)\<rparr>))" for u p
    using s by (simp add: preserves_def modify_def ignores_sessionD)
  with s show ?thesis unfolding proxy_wait_branch_def Let_def
    by (auto dest: ignores_sessionD(1))
qed

lemma preserves_text2pdf_branch:
  "ignores_session f \<Longrightarrow> preserves f (text2pdf_branch S E m)"
  unfolding text2pdf_branch_def Let_def by (auto dest: ignores_sessionD(1))

lemma preserves_zip_branch:
  "ignores_session f \<Longrightarrow> preserves f (zip_branch S E m fn lp od)"
  unfolding zip_branch_def Let_def by (auto dest: ignores_sessionD(1))

lemma preserves_unzip_branch:
  "ignores_session f \<Longrightarrow> preserves f (unzip_branch S E m fn lp wd od)"
proof -
  assume s: "ignores_session f"
  then have io: "ignores_io f" by (rule ignores_sessionD)
  show ?thesis unfolding unzip_branch_def Let_def using s io by (auto intro!: preserves_ite)
qed

lemma preserves_rename_file_branch:
  "ignores_session f \<Longrightarrow> preserves f (rename_file_branch S E m lp)"
  unfolding rename_file_branch_def Let_def by (auto dest: ignores_sessionD(1))

lemma preserves_added_total:
  "ignores_io f \<Longrightarrow> preserves f (\<lambda>w. message_answer E m (Added_total (g w)) kb w)"
  by (auto simp: preserves_def message_answer_def tg_def Let_def ignores_ioD split: option.splits)

lemma preserves_merge_collect_branch:
  assumes "ignores_session f"
    and "kind = ascii ''pdf'' \<Longrightarrow>
      (\<And>w. f (w\<lparr>MERGE_BUCKET := bucket_append (MERGE_BUCKET w) (from_user m) lp\<rparr>) = f w)"
  shows "preserves f (merge_collect_branch S E m kind lp)"
  unfolding merge_collect_branch_def using assms
  by (auto dest: ignores_sessionD(1) intro!: preserves_bucket_modify preserves_added_total)

lemma preserves_img2pdf_collect_branch:
  assumes "ignores_session f"
    and "kind = ascii ''image'' \<Longrightarrow>
      (\<And>w. f (w\<lparr>IMG_BUCKET := bucket_append (IMG_BUCKET w) (from_user m) lp\<rparr>) = f w)"
  shows "preserves f (img2pdf_collect_branch S E m kind lp)"
  unfolding img2pdf_collect_branch_def using assms
  by (auto dest: ignores_sessionD(1) intro!: preserves_bucket_modify preserves_added_total)

lemma preserves_rename_newname_branch:
  "ignores_session f \<Longrightarrow> preserves f (rename_newname_branch E m st)"
  unfolding rename_newname_branch_def Let_def
  by (auto dest: ignores_sessionD(1) split: option.splits)

lemma preserves_dl_link_branch:
  "ignores_session f \<Longrightarrow> preserves f (dl_link_branch S E tbl m md proxy)"
proof -
  assume s: "ignores_session f"
  then have io: "ignores_io f" by (rule ignores_sessionD)
  show ?thesis unfolding dl_link_branch_def Let_def using s io
    by (auto intro!: preserves_ite)
qed

lemma preserves_document_branch:
  assumes "ignores_session f"
    and "act = Some Merge_collect \<Longrightarrow>
           fst (detect_content_type_from_name tbl (document_filename doc)) = ascii ''pdf'' \<Longrightarrow>
      (\<And>w p. f (w\<lparr>MERGE_BUCKET := bucket_append (MERGE_BUCKET w) (from_user m) p\<rparr>) = f w)"
    and "act = Some Img2pdf_collect \<Longrightarrow>
           fst (detect_content_type_from_name tbl (document_filename doc)) = ascii ''image'' \<Longrightarrow>
      (\<And>w p. f (w\<lparr>IMG_BUCKET := bucket_append (IMG_BUCKET w) (from_user m) p\<rparr>) = f w)"
  shows "preserves f (document_branch S E tbl m doc act)"
  unfolding document_branch_def Let_def using assms
  by (auto dest: ignores_sessionD(1)
      intro!: preserves_zip_branch preserves_unzip_branch preserves_rename_file_branch
        preserves_merge_collect_branch preserves_img2pdf_collect_branch)

lemma handle_message_frame:
  assumes "ignores_session f"
    and "\<And>doc. msg_document m = Some doc \<Longrightarrow> action (get_state w (from_user m)) = Some Merge_collect \<Longrightarrow>
           fst (detect_content_type_from_name tbl (document_filename doc)) = ascii ''pdf'' \<Longrightarrow>
      (\<And>w p. f (w\<lparr>MERGE_BUCKET := bucket_append (MERGE_BUCKET w) (from_user m) p\<rparr>) = f w)"
    and "\<And>doc. msg_document m = Some doc \<Longrightarrow> action (get_state w (from_user m)) = Some Img2pdf_collect \<Longrightarrow>
           fst (detect_content_type_from_name tbl (document_filename doc)) = ascii ''image'' \<Longrightarrow>
      (\<And>w p. f (w\<lparr>IMG_BUCKET := bucket_append (IMG_BUCKET w) (from_user m) p\<rparr>) = f w)"
  shows "f (snd (handle_message S E tbl m w)) = f w"
proof -
  from assms(1) have io: "ignores_io f" by (rule ignores_sessionD)
  note br = preservesD[OF preserves_proxy_wait_branch[OF assms(1)]]
    preservesD[OF preserves_text2pdf_branch[OF assms(1)]]
    preservesD[OF preserves_rename_newname_branch[OF assms(1)]]
    preservesD[OF preserves_dl_link_branch[OF assms(1)]]
    preservesD[OF preserves_message(2)[OF io]]
  show ?thesis
  proof (cases "msg_document m")
    case None
    then show ?thesis unfolding handle_message_def Let_def
      by (simp add: br split: option.splits action.splits)
  next
    case (Some doc)
    have "preserves f (document_branch S E tbl m doc (action (get_state w (from_user m))))"
      using assms(2)[OF Some] assms(3)[OF Some] by (intro preserves_document_branch assms(1)) 
    from preservesD[OF this] Some show ?thesis unfolding handle_message_def Let_def
      by (simp add: br)
  qed
qed

section \<open>The buffers change only in their own flow\<close>

lemma after_colon_data:
  "prefix (ascii ''menu:'') d \<Longrightarrow> d = ascii ''menu:'' @ after_colon d"
  "prefix (ascii ''proxy:'') d \<Longrightarrow> d = ascii ''proxy:'' @ after_colon d"
  "prefix (ascii ''file:'') d \<Longrightarrow> d = ascii ''file:'' @ after_colon d"
  "prefix (ascii ''dl:'') d \<Longrightarrow> d = ascii ''dl:'' @ after_colon d"
  "prefix (ascii ''merge:'') d \<Longrightarrow> d = ascii ''merge:'' @ after_colon d"
  "prefix (ascii ''imgpdf:'') d \<Longrightarrow> d = ascii ''imgpdf:'' @ after_colon d"
  by (auto simp: prefix_def ascii_def after_colon_def)

lemma bucket_other_user:
  "v \<noteq> u \<Longrightarrow> (b(v \<mapsto> x)) u = b u" "v \<noteq> u \<Longrightarrow> (b(v := None)) u = b u"
  "v \<noteq> u \<Longrightarrow> bucket_append b v p u = b u"
  by (simp_all add: bucket_append_def)

lemma dispatch_frame_merge:
  assumes no_button: "\<And>q. upd = Callback q \<Longrightarrow> cq_from_user q = u \<Longrightarrow>
      cq_data q \<notin> set (map ascii [''file:mergepdf'', ''merge:clear'', ''merge:cancel'', ''merge:done''])"
    and no_document: "\<And>m doc. upd = Message m \<Longrightarrow> from_user m = u \<Longrightarrow> msg_document m = Some doc \<Longrightarrow>
      action (get_state w u) = Some Merge_collect \<Longrightarrow>
      fst (detect_content_type_from_name tbl (document_filename doc)) \<noteq> ascii ''pdf''"
  shows "MERGE_BUCKET (snd (dispatch S E tbl upd w)) u = MERGE_BUCKET w u"
proof (cases upd)
  case (Start_command m)
  then show ?thesis
    using preservesD[OF preserves_start[of "\<lambda>w. MERGE_BUCKET w u"]] by (simp add: dispatch_def)
next
  case (Message m)
  have "(\<lambda>w. MERGE_BUCKET w u) (snd (handle_message S E tbl m w)) = (\<lambda>w. MERGE_BUCKET w u) w"
  proof (rule handle_message_frame)
    show "ignores_session (\<lambda>w. MERGE_BUCKET w u)" by simp
  next
    fix doc w0 p
    assume "msg_document m = Some doc" "action (get_state w (from_user m)) = Some Merge_collect"
      "fst (detect_content_type_from_name tbl (document_filename doc)) = ascii ''pdf''"
    with no_document[OF Message] have "from_user m \<noteq> u" by blast
    then show "MERGE_BUCKET (w0\<lparr>MERGE_BUCKET := bucket_append (MERGE_BUCKET w0) (from_user m) p\<rparr>) u
        = MERGE_BUCKET w0 u"
      by (simp add: bucket_other_user)
  qed simp
  with Message show ?thesis by (simp add: dispatch_def)
next
  case (Callback q)
  let ?f = "\<lambda>w. MERGE_BUCKET w u"
  have s: "ignores_session ?f" by simp
  show ?thesis
  proof (cases "prefix (ascii ''file:'') (cq_data q) \<or> prefix (ascii ''merge:'') (cq_data q)")
    case False
    then show ?thesis using Callback
      preservesD[OF preserves_menu_nav[OF s]] preservesD[OF preserves_proxy_actions[OF s]]
      preservesD[OF preserves_dl_actions[OF s]]
      preservesD[OF preserves_imgpdf_controls[OF s], of q]
      by (simp add: dispatch_def ret_def)
  next
    case True
    have other: "cq_from_user q \<noteq> u"
      if "cq_data q \<in> set (map ascii [''file:mergepdf'', ''merge:clear'', ''merge:cancel'', ''merge:done''])"
      using that no_button[OF Callback] by blast
    have fa: "preserves ?f (file_actions E q)" if "prefix (ascii ''file:'') (cq_data q)"
    proof (rule preserves_file_actions[OF s])
      fix w0 assume "after_colon (cq_data q) = ascii ''mergepdf''"
      with after_colon_data(3)[OF that] have "cq_data q = ascii ''file:mergepdf''"
        by (simp add: ascii_def)
      then have "cq_from_user q \<noteq> u" by (intro other) simp
      then show "MERGE_BUCKET (w0\<lparr>MERGE_BUCKET := (MERGE_BUCKET w0)(cq_from_user q \<mapsto> [])\<rparr>) u
          = MERGE_BUCKET w0 u" by simp
    qed simp
    have mc: "preserves ?f (merge_controls S E q)" if "prefix (ascii ''merge:'') (cq_data q)"
    proof (rule preserves_merge_controls[OF s])
      fix w0 assume "after_colon (cq_data q) = ascii ''clear''"
      with after_colon_data(5)[OF that] have "cq_data q = ascii ''merge:clear''"
        by (simp add: ascii_def)
      then have "cq_from_user q \<noteq> u" by (intro other) simp
      then show "MERGE_BUCKET (w0\<lparr>MERGE_BUCKET := (MERGE_BUCKET w0)(cq_from_user q \<mapsto> [])\<rparr>) u
          = MERGE_BUCKET w0 u" by simp
    next
      fix w0 assume "after_colon (cq_data q) = ascii ''cancel'' \<or> after_colon (cq_data q) = ascii ''done''"
      with after_colon_data(5)[OF that]
      have "cq_data q = ascii ''merge:cancel'' \<or> cq_data q = ascii ''merge:done''"
        by (auto simp: ascii_def)
      then have "cq_from_user q \<noteq> u" by (intro other) auto
      then show "MERGE_BUCKET (w0\<lparr>MERGE_BUCKET := (MERGE_BUCKET w0)(cq_from_user q := None)\<rparr>) u
          = MERGE_BUCKET w0 u" by simp
    qed
    from True Callback show ?thesis
      using preservesD[OF preserves_menu_nav[OF s]] preservesD[OF preserves_proxy_actions[OF s]]
        preservesD[OF preserves_dl_actions[OF s]] preservesD[OF fa] preservesD[OF mc]
      by (auto simp: dispatch_def)
  qed
qed

lemma dispatch_frame_img:
  assumes no_button: "\<And>q. upd = Callback q \<Longrightarrow> cq_from_user q = u \<Longrightarrow>
      cq_data q \<notin> set (map ascii [''file:img2pdf'', ''imgpdf:clear'', ''imgpdf:cancel'', ''imgpdf:done''])"
    and no_document: "\<And>m doc. upd = Message m \<Longrightarrow> from_user m = u \<Longrightarrow> msg_document m = Some doc \<Longrightarrow>
      action (get_state w u) = Some Img2pdf_collect \<Longrightarrow>
      fst (detect_content_type_from_name tbl (document_filename doc)) \<noteq> ascii ''image''"
  shows "IMG_BUCKET (snd (dispatch S E tbl upd w)) u = IMG_BUCKET w u"
proof (cases upd)
  case (Start_command m)
  then show ?thesis
    using preservesD[OF preserves_start[of "\<lambda>w. IMG_BUCKET w u"]] by (simp add: dispatch_def)
next
  case (Message m)
  have "(\<lambda>w. IMG_BUCKET w u) (snd (handle_message S E tbl m w)) = (\<lambda>w. IMG_BUCKET w u) w"
  proof (rule handle_message_frame)
    show "ignores_session (\<lambda>w. IMG_BUCKET w u)" by simp
  next
    fix doc w0 p
    assume "msg_document m = Some doc" "action (get_state w (from_user m)) = Some Img2pdf_collect"
      "fst (detect_content_type_from_name tbl (document_filename doc)) = ascii ''image''"
    with no_document[OF Message] have "from_user m \<noteq> u" by blast
    then show "IMG_BUCKET (w0\<lparr>IMG_BUCKET := bucket_append (IMG_BUCKET w0) (from_user m) p\<rparr>) u
        = IMG_BUCKET w0 u"
      by (simp add: bucket_other_user)
  qed simp
  with Message show ?thesis by (simp add: dispatch_def)
next
  case (Callback q)
  let ?f = "\<lambda>w. IMG_BUCKET w u"
  have s: "ignores_session ?f" by simp
  show ?thesis
  proof (cases "prefix (ascii ''file:'') (cq_data q) \<or> prefix (ascii ''imgpdf:'') (cq_data q)")
    case False
    then show ?thesis using Callback
      preservesD[OF preserves_menu_nav[OF s]] preservesD[OF preserves_proxy_actions[OF s]]
      preservesD[OF preserves_dl_actions[OF s]]
      preservesD[OF preserves_merge_controls[OF s], of q]
      by (simp add: dispatch_def ret_def)
  next
    case True
    have other: "cq_from_user q \<noteq> u"
      if "cq_data q \<in> set (map ascii [''file:img2pdf'', ''imgpdf:clear'', ''imgpdf:cancel'', ''imgpdf:done''])"
      using that no_button[OF Callback] by blast
    have fa: "preserves ?f (file_actions E q)" if "prefix (ascii ''file:'') (cq_data q)"
    proof (rule preserves_file_actions[OF s])
      fix w0 assume "after_colon (cq_data q) = ascii ''img2pdf''"
      with after_colon_data(3)[OF that] have "cq_data q = ascii ''file:img2pdf''"
        by (simp add: ascii_def)
      then have "cq_from_user q \<noteq> u" by (intro other) simp
      then show "IMG_BUCKET (w0\<lparr>IMG_BUCKET := (IMG_BUCKET w0)(cq_from_user q \<mapsto> [])\<rparr>) u
          = IMG_BUCKET w0 u" by simp
    qed simp
    have mc: "preserves ?f (imgpdf_controls S E q)" if "prefix (ascii ''imgpdf:'') (cq_data q)"
    proof (rule preserves_imgpdf_controls[OF s])
      fix w0 assume "after_colon (cq_data q) = ascii ''clear''"
      with after_colon_data(6)[OF that] have "cq_data q = ascii ''imgpdf:clear''"
        by (simp add: ascii_def)
      then have "cq_from_user q \<noteq> u" by (intro other) simp
      then show "IMG_BUCKET (w0\<lparr>IMG_BUCKET := (IMG_BUCKET w0)(cq_from_user q \<mapsto> [])\<rparr>) u
          = IMG_BUCKET w0 u" by simp
    next
      fix w0 assume "after_colon (cq_data q) = ascii ''cancel'' \<or> after_colon (cq_data q) = ascii ''done''"
      with after_colon_data(6)[OF that]
      have "cq_data q = ascii ''imgpdf:cancel'' \<or> cq_data q = ascii ''imgpdf:done''"
        by (auto simp: ascii_def)
      then have "cq_from_user q \<noteq> u" by (intro other) auto
      then show "IMG_BUCKET (w0\<lparr>IMG_BUCKET := (IMG_BUCKET w0)(cq_from_user q := None)\<rparr>) u
          = IMG_BUCKET w0 u" by simp
    qed
    have mcx: "preserves ?f (merge_controls S E q)"
      by (rule preserves_merge_controls[OF s]) simp_all
    from True Callback show ?thesis
      using preservesD[OF preserves_menu_nav[OF s]] preservesD[OF preserves_proxy_actions[OF s]]
        preservesD[OF preserves_dl_actions[OF s]] preservesD[OF fa] preservesD[OF mc]
        preservesD[OF mcx]
      by (auto simp: dispatch_def)
  qed
qed

text \<open>
  Claim C10. A menu button (\<open>menu:file\<close>, \<open>menu:dl\<close>, \<open>menu:proxy\<close>, \<open>menu:back\<close>)
  leaves both buffer maps as they are. And whatever the update, the merge buffer of a user
  changes only when that user presses \<open>file:mergepdf\<close>, \<open>merge:clear\<close>, \<open>merge:cancel\<close>
  or \<open>merge:done\<close>, or sends a document with a PDF name while the action is
  \<open>merge_collect\<close>; the image buffer changes only on \<open>file:img2pdf\<close>, \<open>imgpdf:clear\<close>,
  \<open>imgpdf:cancel\<close>, \<open>imgpdf:done\<close>, or a document with an image name while the action is
  \<open>img2pdf_collect\<close>.
\<close>

theorem buffers_change_only_in_their_flow:
  assumes "dispatch S E tbl upd w = (r, w')"
  shows
    "(\<forall>q. upd = Callback q \<and> prefix (ascii ''menu:'') (cq_data q) \<longrightarrow>
        MERGE_BUCKET w' = MERGE_BUCKET w \<and> IMG_BUCKET w' = IMG_BUCKET w) \<and>
     (MERGE_BUCKET w' u \<noteq> MERGE_BUCKET w u \<longrightarrow>
        (\<exists>q. upd = Callback q \<and> cq_from_user q = u \<and>
           cq_data q \<in> set (map ascii
             [''file:mergepdf'', ''merge:clear'', ''merge:cancel'', ''merge:done''])) \<or>
        (\<exists>m doc. upd = Message m \<and> from_user m = u \<and> msg_document m = Some doc \<and>
           action (get_state w u) = Some Merge_collect \<and>
           fst (detect_content_type_from_name tbl (document_filename doc)) = ascii ''pdf'')) \<and>
     (IMG_BUCKET w' u \<noteq> IMG_BUCKET w u \<longrightarrow>
        (\<exists>q. upd = Callback q \<and> cq_from_user q = u \<and>
           cq_data q \<in> set (map ascii
             [''file:img2pdf'', ''imgpdf:clear'', ''imgpdf:cancel'', ''imgpdf:done''])) \<or>
        (\<exists>m doc. upd = Message m \<and> from_user m = u \<and> msg_document m = Some doc \<and>
           action (get_state w u) = Some Img2pdf_collect \<and>
           fst (detect_content_type_from_name tbl (document_filename doc)) = ascii ''image''))"
proof (intro conjI allI impI)
  fix q assume "upd = Callback q \<and> prefix (ascii ''menu:'') (cq_data q)"
  then have "dispatch S E tbl upd = menu_nav E q" by (simp add: dispatch_def)
  with assms have w': "w' = snd (menu_nav E q w)" by simp
  show "MERGE_BUCKET w' = MERGE_BUCKET w" unfolding w'
    by (rule preservesD[OF preserves_menu_nav]) simp
  show "IMG_BUCKET w' = IMG_BUCKET w" unfolding w'
    by (rule preservesD[OF preserves_menu_nav]) simp
next
  from assms have w': "w' = snd (dispatch S E tbl upd w)" by simp
  assume ch: "MERGE_BUCKET w' u \<noteq> MERGE_BUCKET w u"
  show "(\<exists>q. upd = Callback q \<and> cq_from_user q = u \<and>
           cq_data q \<in> set (map ascii
             [''file:mergepdf'', ''merge:clear'', ''merge:cancel'', ''merge:done''])) \<or>
        (\<exists>m doc. upd = Message m \<and> from_user m = u \<and> msg_document m = Some doc \<and>
           action (get_state w u) = Some Merge_collect \<and>
           fst (detect_content_type_from_name tbl (document_filename doc)) = ascii ''pdf'')"
  proof (rule ccontr)
    assume n: "\<not> ?thesis"
    have "MERGE_BUCKET (snd (dispatch S E tbl upd w)) u = MERGE_BUCKET w u"
      by (rule dispatch_frame_merge) (use n in blast)+
    with ch w' show False by simp
  qed
next
  from assms have w': "w' = snd (dispatch S E tbl upd w)" by simp
  assume ch: "IMG_BUCKET w' u \<noteq> IMG_BUCKET w u"
  show "(\<exists>q. upd = Callback q \<and> cq_from_user q = u \<and>
           cq_data q \<in> set (map ascii
             [''file:img2pdf'', ''imgpdf:clear'', ''imgpdf:cancel'', ''imgpdf:done''])) \<or>
        (\<exists>m doc. upd = Message m \<and> from_user m = u \<and> msg_document m = Some doc \<and>
           action (get_state w u) = Some Img2pdf_collect \<and>
           fst (detect_content_type_from_name tbl (document_filename doc)) = ascii ''image'')"
  proof (rule ccontr)
    assume n: "\<not> ?thesis"
    have "IMG_BUCKET (snd (dispatch S E tbl upd w)) u = IMG_BUCKET w u"
      by (rule dispatch_frame_img) (use n in blast)+
    with ch w' show False by simp
  qed
qed

theorem buffers_change_only_in_their_flow_witness:
  "prefix (ascii ''menu:'') (ascii ''menu:dl'') \<and>
   MERGE_BUCKET (snd (dispatch default_settings plain_env (\<lambda>c. [c])
       (Callback \<lparr>cq_from_user = 7, cq_chat = 7, cq_data = ascii ''menu:dl''\<rparr>)
       ((in_state 7 File_menu (Some Merge_collect))
          \<lparr>MERGE_BUCKET := [7 \<mapsto> [[ascii ''a.pdf''], [ascii ''b.pdf'']]]\<rparr>))) 7
     = Some [[ascii ''a.pdf''], [ascii ''b.pdf'']]"
proof -
  let ?q = "\<lparr>cq_from_user = 7, cq_chat = 7, cq_data = ascii ''menu:dl''\<rparr>"
  let ?w = "(in_state 7 File_menu (Some Merge_collect))
          \<lparr>MERGE_BUCKET := [7 \<mapsto> [[ascii ''a.pdf''], [ascii ''b.pdf'']]]\<rparr>"
  have p: "prefix (ascii ''menu:'') (cq_data ?q)" by (simp add: ascii_def)
  from buffers_change_only_in_their_flow[where S = default_settings and E = plain_env
      and tbl = "\<lambda>c. [c]" and upd = "Callback ?q" and w = ?w and u = 7,
      OF surjective_pairing] p
  have "MERGE_BUCKET (snd (dispatch default_settings plain_env (\<lambda>c. [c]) (Callback ?q) ?w))
          = MERGE_BUCKET ?w" by blast
  then show ?thesis using p by simp
qed

section \<open>The outcome calculus\<close>

lemma outcomeD: "outcome m w Q \<Longrightarrow> m w = (r, w') \<Longrightarrow> Q r w'"
  by (simp add: outcome_def)

lemma outcome_ret: "Q (Inr x) w \<Longrightarrow> outcome (ret x) w Q"
  by (simp add: outcome_def ret_def)

lemma outcome_raise: "Q (Inl e) w \<Longrightarrow> outcome (raise e) w Q"
  by (simp add: outcome_def raise_def)

lemma outcome_bind:
  "outcome a w (\<lambda>r w1. case r of Inl e \<Rightarrow> Q (Inl e) w1 | Inr x \<Rightarrow> outcome (f x) w1 Q)
     \<Longrightarrow> outcome (bind a f) w Q"
  by (cases "a w") (auto simp: outcome_def bind_def split: sum.splits)

lemma outcome_seq:
  "outcome a w (\<lambda>r w1. case r of Inl e \<Rightarrow> Q (Inl e) w1 | Inr x \<Rightarrow> outcome b w1 Q)
     \<Longrightarrow> outcome (seq a b) w Q"
  unfolding seq_def by (rule outcome_bind)

lemma outcome_try_finally:
  "outcome a w (\<lambda>r w1. outcome fin w1
       (\<lambda>r2 w2. case r2 of Inl e \<Rightarrow> Q (Inl e) w2 | Inr u \<Rightarrow> Q r w2))
     \<Longrightarrow> outcome (try_finally a fin) w Q"
  by (cases "a w"; cases "fin (snd (a w))")
     (auto simp: outcome_def try_finally_def split: sum.splits)

lemma outcome_try_except:
  "outcome a w (\<lambda>r w1. case r of Inl e \<Rightarrow> outcome (h e) w1 Q | Inr x \<Rightarrow> Q (Inr x) w1)
     \<Longrightarrow> outcome (try_except a h) w Q"
  by (cases "a w") (auto simp: outcome_def try_except_def split: sum.splits)

lemma outcome_modify: "Q (Inr ()) (g w) \<Longrightarrow> outcome (modify g) w Q"
  by (simp add: outcome_def modify_def)

lemma outcome_set_state:
  "Q (Inr ()) (w\<lparr>USER_STATE := (USER_STATE w)(u \<mapsto> \<lparr>menu = mn, action = a, rename_path = x\<rparr>)\<rparr>)
     \<Longrightarrow> outcome (set_state u mn a x) w Q"
  by (simp add: outcome_def set_state_def modify_def)

lemma outcome_tg:
  "Q (Inr ()) (w\<lparr>trace := trace w @ [c]\<rparr>) \<Longrightarrow> (\<And>e. Q (Inl e) (w\<lparr>trace := trace w @ [c]\<rparr>))
     \<Longrightarrow> outcome (tg E c) w Q"
  by (auto simp: outcome_def tg_def Let_def split: option.splits)

lemma outcome_message:
  "Q (Inr ()) (w\<lparr>trace := trace w @ [Answer (chat m) n kb]\<rparr>) \<Longrightarrow>
   (\<And>e. Q (Inl e) (w\<lparr>trace := trace w @ [Answer (chat m) n kb]\<rparr>))
     \<Longrightarrow> outcome (message_answer E m n kb) w Q"
  "Q (Inr ()) (w\<lparr>trace := trace w @ [Reply (chat m) n kb]\<rparr>) \<Longrightarrow>
   (\<And>e. Q (Inl e) (w\<lparr>trace := trace w @ [Reply (chat m) n kb]\<rparr>))
     \<Longrightarrow> outcome (message_reply E m n kb) w Q"
  unfolding message_answer_def message_reply_def by (rule outcome_tg; assumption)+

lemma outcome_lib:
  "(\<And>p d. Q (Inr p) (w\<lparr>trace := trace w @ [c], disk := d\<rparr>)) \<Longrightarrow>
   (\<And>e. Q (Inl e) (w\<lparr>trace := trace w @ [c]\<rparr>))
     \<Longrightarrow> outcome (lib E c) w Q"
  by (auto simp: outcome_def lib_def Let_def split: sum.splits)

lemma outcome_lib_unit:
  "(\<And>d. Q (Inr ()) (w\<lparr>trace := trace w @ [c], disk := d\<rparr>)) \<Longrightarrow>
   (\<And>e. Q (Inl e) (w\<lparr>trace := trace w @ [c]\<rparr>))
     \<Longrightarrow> outcome (lib_unit E c) w Q"
  by (auto simp: outcome_def lib_unit_def bind_def ret_def lib_def Let_def split: sum.splits)

lemma outcome_on_disk:
  "(\<And>d. f (disk w) = Inr d \<Longrightarrow> Q (Inr ()) (w\<lparr>disk := d\<rparr>)) \<Longrightarrow>
   (\<And>e. f (disk w) = Inl e \<Longrightarrow> Q (Inl e) w)
     \<Longrightarrow> outcome (on_disk f) w Q"
  by (auto simp: outcome_def on_disk_def split: sum.splits)

lemma outcome_mkdir_parents:
  "(\<And>d. mkdirs (clock E (trace w)) p (disk w) = Inr d \<Longrightarrow> Q (Inr ()) (w\<lparr>disk := d\<rparr>)) \<Longrightarrow>
   (\<And>e. mkdirs (clock E (trace w)) p (disk w) = Inl e \<Longrightarrow> Q (Inl e) w)
     \<Longrightarrow> outcome (mkdir_parents E p) w Q"
  by (auto simp: outcome_def mkdir_parents_def on_disk_def split: sum.splits)

lemma outcome_ensure_dir:
  "(\<And>d. mkdirs (clock E (trace w)) p (disk w) = Inr d \<Longrightarrow> Q (Inr p) (w\<lparr>disk := d\<rparr>)) \<Longrightarrow>
   (\<And>e. mkdirs (clock E (trace w)) p (disk w) = Inl e \<Longrightarrow> Q (Inl e) w)
     \<Longrightarrow> outcome (ensure_dir E p) w Q"
  by (auto simp: outcome_def ensure_dir_def seq_def bind_def ret_def mkdir_parents_def on_disk_def
      split: sum.splits)

lemma outcome_send_file:
  "(exists (disk w) p \<Longrightarrow> Q (Inr ()) (w\<lparr>trace := trace w @ [Send_document c p (take 900 cap)]\<rparr>)) \<Longrightarrow>
   (\<And>e. exists (disk w) p \<Longrightarrow> Q (Inl e) (w\<lparr>trace := trace w @ [Send_document c p (take 900 cap)]\<rparr>)) \<Longrightarrow>
   (\<not> exists (disk w) p \<Longrightarrow> Q (Inl OutputFileNotFound) w)
     \<Longrightarrow> outcome (send_file E c p cap) w Q"
  by (auto simp: outcome_def send_file_def tg_def Let_def split: option.splits)

lemma outcome_preserved:
  "preserves session_maps m \<Longrightarrow> (\<And>r w1. session_maps w1 = session_maps w \<Longrightarrow> Q r w1)
     \<Longrightarrow> outcome m w Q"
  by (simp add: outcome_def preserves_def)

lemma ignores_io_session_maps [simp]: "ignores_io session_maps"
  by (simp add: ignores_io_def session_maps_def)

lemma outcome_if:
  "(c \<Longrightarrow> outcome a w Q) \<Longrightarrow> (\<not> c \<Longrightarrow> outcome b w Q) \<Longrightarrow> outcome (if c then a else b) w Q"
  by simp

lemma outcome_world_dep: "outcome (g w) w Q \<Longrightarrow> outcome (\<lambda>w'. g w' w') w Q"
  by (simp add: outcome_def)

text \<open>The loops of library calls: on a normal end every call was made, in order.\<close>

lemma for_each_lib_unit:
  "for_each xs (\<lambda>x. lib_unit E (c x)) w = (Inr u, w') \<Longrightarrow>
     \<exists>d. w' = w\<lparr>trace := trace w @ map c xs, disk := d\<rparr>"
proof (induction xs arbitrary: w)
  case Nil
  then show ?case by (auto simp: for_each_def ret_def intro: exI[of _ "disk w"])
next
  case (Cons x xs)
  from Cons.prems obtain w1 where 1: "lib_unit E (c x) w = (Inr (), w1)"
    and 2: "for_each xs (\<lambda>x. lib_unit E (c x)) w1 = (Inr u, w')"
    by (auto simp: for_each_def seq_def bind_def split: sum.splits prod.splits)
  from 1 obtain d1 where w1: "w1 = w\<lparr>trace := trace w @ [c x], disk := d1\<rparr>"
    by (auto simp: lib_unit_def bind_def ret_def lib_def Let_def split: sum.splits prod.splits)
  from Cons.IH[OF 2] obtain d where "w' = w1\<lparr>trace := trace w1 @ map c xs, disk := d\<rparr>" by blast
  with w1 show ?case by auto
qed

lemma outcome_for_each_lib_unit:
  "(\<And>d. Q (Inr ()) (w\<lparr>trace := trace w @ map c xs, disk := d\<rparr>)) \<Longrightarrow>
   (\<And>e w1. session_maps w1 = session_maps w \<Longrightarrow> Q (Inl e) w1)
     \<Longrightarrow> outcome (for_each xs (\<lambda>x. lib_unit E (c x))) w Q"
proof -
  assume ok: "\<And>d. Q (Inr ()) (w\<lparr>trace := trace w @ map c xs, disk := d\<rparr>)"
    and bad: "\<And>e w1. session_maps w1 = session_maps w \<Longrightarrow> Q (Inl e) w1"
  obtain r w' where rw: "for_each xs (\<lambda>x. lib_unit E (c x)) w = (r, w')"
    by (cases "for_each xs (\<lambda>x. lib_unit E (c x)) w")
  have p: "preserves session_maps (for_each xs (\<lambda>x. lib_unit E (c x)))"
    by (rule preserves_for_each) (rule preserves_lib_unit, simp)
  show ?thesis
  proof (cases r)
    case (Inl e)
    from preservesD[OF p, of w] rw have "session_maps w' = session_maps w" by simp
    from bad[OF this] Inl rw show ?thesis by (simp add: outcome_def)
  next
    case (Inr u)
    with rw for_each_lib_unit[of xs E c w u w'] ok show ?thesis by (auto simp: outcome_def)
  qed
qed

section \<open>Creating directories creates no file\<close>

lemma files_alt: "files d = file_entries (below [] d)"
  by (simp add: files_def)

lemma file_entries_simps [simp]:
  "file_entries [] = []"
  "file_entries ((p, Dir m es) # ns) = file_entries ns"
  "file_entries ((p, File c) # ns) = (p, c) # file_entries ns"
  "file_entries (xs @ ys) = file_entries xs @ file_entries ys"
  by (simp_all add: file_entries_def)

lemma file_entries_cons_append:
  "file_entries (a # xs @ ys) = file_entries (a # xs) @ file_entries ys"
  using file_entries_simps(4)[of "a # xs" ys] by simp

lemma file_entries_concat: "file_entries (concat xss) = concat (map file_entries xss)"
  by (induction xss) simp_all

lemma mkdirs_is_dir: "mkdirs t xs n = Inr n' \<Longrightarrow> \<exists>m es. n' = Dir m es"
  by (cases "(t, xs, n)" rule: mkdirs.cases) (auto split: option.splits sum.splits)

lemma mkdirs_was_dir: "mkdirs t xs n = Inr n' \<Longrightarrow> \<exists>m es. n = Dir m es"
  by (cases "(t, xs, n)" rule: mkdirs.cases) (auto split: option.splits sum.splits)

lemma below_update:
  assumes "map_of es x = Some c0"
    and "file_entries ((p @ [x], c') # below (p @ [x]) c') = file_entries ((p @ [x], c0) # below (p @ [x]) c0)"
  shows "file_entries (concat (map (\<lambda>e. (p @ [fst e], snd e) # below (p @ [fst e]) (snd e)) (AList.update x c' es)))
       = file_entries (concat (map (\<lambda>e. (p @ [fst e], snd e) # below (p @ [fst e]) (snd e)) es))"
  using assms(1)
proof (induction es)
  case Nil then show ?case by simp
next
  case (Cons e es)
  show ?case
  proof (cases "fst e = x")
    case True
    with Cons.prems have "snd e = c0" by (cases e) simp
    from True \<open>snd e = c0\<close> have e: "e = (x, c0)" by (cases e) simp
    show ?thesis unfolding e by (simp add: file_entries_cons_append assms(2) del: below.simps file_entries_simps(2,3))
  next
    case False
    with Cons show ?thesis
      by (cases e) (simp add: file_entries_cons_append del: below.simps file_entries_simps(2,3))
  qed
qed

lemma mkdirs_files_below:
  "mkdirs t xs n = Inr n' \<Longrightarrow> file_entries (below p n') = file_entries (below p n)"
proof (induction xs arbitrary: n n' p)
  case Nil
  then show ?case by (cases n) auto
next
  case (Cons x xs)
  from mkdirs_was_dir[OF Cons.prems] obtain m es where n: "n = Dir m es" by blast
  show ?case
  proof (cases "map_of es x")
    case None
    with Cons.prems n obtain c where c: "mkdirs t xs (Dir t []) = Inr c"
      and n': "n' = Dir t (es @ [(x, c)])"
      by (auto split: sum.splits)
    from mkdirs_is_dir[OF c] obtain m' es' where cd: "c = Dir m' es'" by blast
    from Cons.IH[OF c, of "p @ [x]"] have "file_entries (below (p @ [x]) c) = []" by simp
    with n n' cd show ?thesis by simp
  next
    case (Some c0)
    with Cons.prems n obtain c' where c: "mkdirs t xs c0 = Inr c'"
      and n': "n' = Dir m (AList.update x c' es)"
      by (auto split: sum.splits)
    from mkdirs_is_dir[OF c] obtain m1 es1 where c1: "c' = Dir m1 es1" by blast
    from mkdirs_was_dir[OF c] obtain m0 es0 where c0: "c0 = Dir m0 es0" by blast
    have "file_entries ((p @ [x], c') # below (p @ [x]) c')
        = file_entries ((p @ [x], c0) # below (p @ [x]) c0)"
      using Cons.IH[OF c, of "p @ [x]"] unfolding c1 c0 by (simp del: below.simps)
    from below_update[OF Some this] n n' show ?thesis by simp
  qed
qed

lemma files_mkdirs: "mkdirs t xs d = Inr d' \<Longrightarrow> files d' = files d"
  by (simp add: files_alt mkdirs_files_below)

text \<open>Looking up a path in two steps.\<close>

lemma lookup_append:
  "lookup d (p @ q) = (case lookup d p of None \<Rightarrow> None | Some n \<Rightarrow> lookup n q)"
proof (induction p arbitrary: d)
  case Nil show ?case by simp
next
  case (Cons x p)
  show ?case by (cases d) (auto simp: Cons split: option.splits)
qed


section \<open>Oversized documents\<close>

lemmas outcome_rules = outcome_bind outcome_seq outcome_try_finally outcome_try_except
  outcome_modify outcome_set_state outcome_tg outcome_message outcome_send_file
  outcome_mkdir_parents outcome_ensure_dir outcome_for_each_lib_unit outcome_lib_unit
  outcome_lib outcome_ret outcome_raise

lemma download_oversize:
  assumes "msg_document m = Some doc" "oversize S doc"
  shows "outcome (download_telegram_file S E m dest) w (\<lambda>r w'.
      session_maps w' = session_maps w \<and> trace w' = trace w \<and> files (disk w') = files (disk w) \<and>
      (r = Inl (FileTooLarge (the (file_size doc)) (max_telegram_file_mb S)) \<or>
       (\<exists>e. mkdirs (clock E (trace w)) (parent dest) (disk w) = Inl e \<and> r = Inl e)))"
  using assms unfolding download_telegram_file_def oversize_def
  by (auto intro!: outcome_rules simp: session_maps_def Let_def files_mkdirs split: option.splits)


lemma outcome_weaken: "outcome m w P \<Longrightarrow> (\<And>r w'. P r w' \<Longrightarrow> Q r w') \<Longrightarrow> outcome m w Q"
  by (simp add: outcome_def)

lemma outcome_download_oversize:
  assumes "msg_document m = Some doc" "oversize S doc"
    and "\<And>e w'. session_maps w' = session_maps w \<Longrightarrow> trace w' = trace w \<Longrightarrow>
           files (disk w') = files (disk w) \<Longrightarrow> Q (Inl e) w'"
  shows "outcome (download_telegram_file S E m dest) w Q"
  by (rule outcome_weaken[OF download_oversize[OF assms(1,2)]]) (auto intro: assms(3))

lemmas dir_defs = work_dir_def downloads_dir_def output_dir_def user_dir_def

lemma zip_oversize:
  assumes act: "action (get_state w (from_user m)) = Some Zip_wait_file"
    and doc: "msg_document m = Some doc" and big: "oversize S doc"
  shows "outcome (handle_message S E tbl m) w (\<lambda>r w'.
      (\<exists>e. r = Inl e) \<and> session_maps w' = session_maps w \<and> files (disk w') = files (disk w) \<and>
      (trace w' = trace w \<or>
       trace w' = trace w @ [Answer (chat m) (Txt ''Downloading file...'') No_kb]))"
proof -
  define B where "B = document_branch S E tbl m doc (Some Zip_wait_file)"
  have "handle_message S E tbl m w = B w"
    using act doc by (simp add: handle_message_def Let_def B_def)
  then have e: "outcome (handle_message S E tbl m) w Q = outcome B w Q" for Q
    by (simp add: outcome_def)
  show ?thesis unfolding e B_def document_branch_def zip_branch_def dir_defs Let_def
    by (auto intro!: outcome_rules outcome_download_oversize[OF doc big]
        simp: session_maps_def dest!: files_mkdirs)
qed

lemma collect_oversize:
  assumes act: "action (get_state w (from_user m)) = Some Merge_collect
              \<or> action (get_state w (from_user m)) = Some Img2pdf_collect"
    and doc: "msg_document m = Some doc" and big: "oversize S doc"
  shows "outcome (handle_message S E tbl m) w (\<lambda>r w'.
      session_maps w' = session_maps w \<and> files (disk w') = files (disk w) \<and>
      (\<forall>f d. Tg_download f d \<notin> set (drop (length (trace w)) (trace w'))))"
proof -
  define B where "B = document_branch S E tbl m doc (action (get_state w (from_user m)))"
  have "handle_message S E tbl m w = B w"
    using act doc by (auto simp add: handle_message_def Let_def B_def)
  then have e: "outcome (handle_message S E tbl m) w Q = outcome B w Q" for Q
    by (simp add: outcome_def)
  from act show ?thesis unfolding e B_def document_branch_def merge_collect_branch_def
      img2pdf_collect_branch_def dir_defs Let_def
    by (auto intro!: outcome_rules outcome_download_oversize[OF doc big]
        simp: session_maps_def dest!: files_mkdirs)
qed


text \<open>
  Claim C3, as the code has it. When the reported size of a document exceeds the
  ceiling, \<open>download_telegram_file\<close> raises the too-large error (unless creating the
  destination directory has already failed) without any call of the transport, and
  writes no file. In the collection flows the session maps (action and buffers) stay as
  they are and no download is made. In the zip flow the handler ends with the exception,
  no download is made and no file is written; the session maps stay as they are, so the
  action is still \<open>zip_wait_file\<close>.
\<close>

theorem oversized_document:
  assumes "msg_document m = Some doc" and "oversize S doc"
    and "download_telegram_file S E m dest w = (rd, wd)"
    and "handle_message S E tbl m w = (r, w')"
  shows
    "trace wd = trace w \<and> files (disk wd) = files (disk w) \<and>
     (rd = Inl (FileTooLarge (the (file_size doc)) (max_telegram_file_mb S)) \<or>
      (\<exists>e. mkdirs (clock E (trace w)) (parent dest) (disk w) = Inl e \<and> rd = Inl e)) \<and>
     (action (get_state w (from_user m)) = Some Merge_collect \<or>
      action (get_state w (from_user m)) = Some Img2pdf_collect \<longrightarrow>
        session_maps w' = session_maps w \<and> files (disk w') = files (disk w) \<and>
        (\<forall>f d. Tg_download f d \<notin> set (drop (length (trace w)) (trace w')))) \<and>
     (action (get_state w (from_user m)) = Some Zip_wait_file \<longrightarrow>
        (\<exists>e. r = Inl e) \<and> session_maps w' = session_maps w \<and>
        files (disk w') = files (disk w) \<and>
        (trace w' = trace w \<or>
         trace w' = trace w @ [Answer (chat m) (Txt ''Downloading file...'') No_kb]))"
proof (intro conjI impI)
  from outcomeD[OF download_oversize[OF assms(1,2)] assms(3)]
  show "trace wd = trace w" "files (disk wd) = files (disk w)"
    "rd = Inl (FileTooLarge (the (file_size doc)) (max_telegram_file_mb S)) \<or>
      (\<exists>e. mkdirs (clock E (trace w)) (parent dest) (disk w) = Inl e \<and> rd = Inl e)"
    by simp_all
next
  assume "action (get_state w (from_user m)) = Some Merge_collect \<or>
      action (get_state w (from_user m)) = Some Img2pdf_collect"
  from outcomeD[OF collect_oversize[OF this assms(1,2)] assms(4)]
  show "session_maps w' = session_maps w" "files (disk w') = files (disk w)"
    "\<forall>f d. Tg_download f d \<notin> set (drop (length (trace w)) (trace w'))"
    by simp_all
next
  assume "action (get_state w (from_user m)) = Some Zip_wait_file"
  from outcomeD[OF zip_oversize[OF this assms(1,2)] assms(4)]
  show "\<exists>e. r = Inl e" "session_maps w' = session_maps w" "files (disk w') = files (disk w)"
    "trace w' = trace w \<or>
         trace w' = trace w @ [Answer (chat m) (Txt ''Downloading file...'') No_kb]"
    by simp_all
qed

lemma three_gigabytes_oversize:
  "msg_document (document_message 7 name 3000000000)
     = Some \<lparr>file_id = ascii ''f1'', file_name = Some (ascii name), file_size = Some 3000000000\<rparr>"
  "oversize default_settings
     \<lparr>file_id = ascii ''f1'', file_name = Some (ascii name), file_size = Some 3000000000\<rparr>"
  by (simp_all add: document_message_def oversize_def default_settings_def)

theorem oversized_document_witness:
  "oversize default_settings
     \<lparr>file_id = ascii ''f1'', file_name = Some (ascii ''c.pdf''), file_size = Some 3000000000\<rparr> \<and>
   action (get_state two_pdfs 7) = Some Merge_collect \<and>
   MERGE_BUCKET (snd (handle_message default_settings plain_env (\<lambda>c. [c])
       (document_message 7 ''c.pdf'' 3000000000) two_pdfs)) 7
     = Some [[ascii ''a.pdf''], [ascii ''b.pdf'']]"
proof -
  have u: "from_user (document_message 7 ''c.pdf'' 3000000000) = 7"
    by (simp add: document_message_def)
  have a: "action (get_state two_pdfs 7) = Some Merge_collect"
    by (simp add: two_pdfs_def fixture_defs)
  from oversized_document[OF three_gigabytes_oversize[of "''c.pdf''"]
      surjective_pairing surjective_pairing,
      where E = plain_env and w = two_pdfs and tbl = "\<lambda>c. [c]" and dest = "[]"] a
  have "session_maps (snd (handle_message default_settings plain_env (\<lambda>c. [c])
       (document_message 7 ''c.pdf'' 3000000000) two_pdfs)) = session_maps two_pdfs"
    unfolding u by blast
  then show ?thesis using a three_gigabytes_oversize(2)[of "''c.pdf''"]
    by (simp add: session_maps_def two_pdfs_def)
qed

text \<open>
  Claim C3, as stated, fails in its last part: after an oversized document in the zip
  flow the action is not reset to none; it is still \<open>zip_wait_file\<close>.
\<close>

theorem oversized_zip_keeps_action:
  "oversize default_settings
     \<lparr>file_id = ascii ''f1'', file_name = Some (ascii ''big.bin''), file_size = Some 3000000000\<rparr> \<and>
   action (get_state (snd (handle_message default_settings plain_env (\<lambda>c. [c])
       (document_message 7 ''big.bin'' 3000000000) (in_state 7 File_menu (Some Zip_wait_file)))) 7)
     = Some Zip_wait_file"
proof -
  let ?w = "in_state 7 File_menu (Some Zip_wait_file)"
  let ?m = "document_message 7 ''big.bin'' 3000000000"
  have a: "action (get_state ?w (from_user ?m)) = Some Zip_wait_file"
    by (simp add: fixture_defs)
  from outcomeD[OF zip_oversize[OF a three_gigabytes_oversize[of "''big.bin''"],
        where E = plain_env and tbl = "\<lambda>c. [c]"] surjective_pairing]
  have "USER_STATE (snd (handle_message default_settings plain_env (\<lambda>c. [c]) ?m ?w))
          = USER_STATE ?w"
    by (simp add: session_maps_def)
  then show ?thesis using three_gigabytes_oversize(2)[of "''big.bin''"]
    by (simp add: fixture_defs)
qed

section \<open>Pressing done in the merge flow\<close>


lemma outcome_cong: "m w = m' w \<Longrightarrow> outcome m w Q = outcome m' w Q"
  by (simp add: outcome_def)


lemma merge_done_outcome:
  assumes cmd: "after_colon (cq_data q) = ascii ''done''"
    and len: "2 \<le> length (bucket_get (MERGE_BUCKET w) (cq_from_user q))"
  shows "outcome (merge_controls S E q) w (\<lambda>r w'. r = Inr () \<longrightarrow>
      trace w' = trace w @ [Answer (cq_chat q) (Txt ''Merging PDFs...'') No_kb]
        @ map Merger_append (bucket_get (MERGE_BUCKET w) (cq_from_user q))
        @ [Merger_write (merged_pdf S (cq_from_user q)), Merger_close,
           Send_document (cq_chat q) (merged_pdf S (cq_from_user q)) ''Merged PDF'',
           Callback_answer (cq_from_user q)] \<and>
      MERGE_BUCKET w' = (MERGE_BUCKET w)(cq_from_user q := None) \<and>
      USER_STATE w' = (USER_STATE w)
        (cq_from_user q \<mapsto> \<lparr>menu = File_menu, action = None, rename_path = None\<rparr>))"
proof -
  have ne: "ascii ''done'' \<noteq> ascii ''clear''" "ascii ''done'' \<noteq> ascii ''cancel''"
    by (simp_all add: ascii_def)
  define B where "B = bind (output_dir E (base_dir S) (cq_from_user q)) (\<lambda>odir.
             let out = join odir (safe_filename (ascii ''merged.pdf'')) in
             seq (try_finally
                    (seq (tg E (Answer (cq_chat q) (Txt ''Merging PDFs...'') No_kb))
                    (seq (bind (do_merge_pdfs E (bucket_get (MERGE_BUCKET w) (cq_from_user q)) out) (\<lambda>_. ret ()))
                         (send_file E (cq_chat q) out ''Merged PDF'')))
                    (modify (\<lambda>w. w\<lparr>MERGE_BUCKET := (MERGE_BUCKET w)(cq_from_user q := None)\<rparr>)))
            (seq (set_state (cq_from_user q) File_menu None None)
                 (tg E (Callback_answer (cq_from_user q)))))"
  have "merge_controls S E q w = B w"
    using cmd len ne by (simp add: merge_controls_def Let_def B_def)
  then have e: "outcome (merge_controls S E q) w Q = outcome B w Q" for Q
    by (simp add: outcome_def)
  show ?thesis unfolding e B_def
    unfolding output_dir_def user_dir_def do_merge_pdfs_def merge_pdfs_def Let_def merged_pdf_def
    by (auto intro!: outcome_rules)
qed


lemma merge_done_too_few:
  assumes cmd: "after_colon (cq_data q) = ascii ''done''"
    and len: "length (bucket_get (MERGE_BUCKET w) (cq_from_user q)) < 2"
  shows "outcome (merge_controls S E q) w (\<lambda>r w'.
      session_maps w' = session_maps w \<and> disk w' = disk w \<and>
      take 1 (drop (length (trace w)) (trace w')) =
        [Answer (cq_chat q) (Txt ''Send at least 2 PDFs before merging.'') No_kb])"
proof -
  have ne: "ascii ''done'' \<noteq> ascii ''clear''" "ascii ''done'' \<noteq> ascii ''cancel''"
    by (simp_all add: ascii_def)
  define B where "B = seq (tg E (Answer (cq_chat q) (Txt ''Send at least 2 PDFs before merging.'') No_kb))
               (tg E (Callback_answer (cq_from_user q)))"
  have "merge_controls S E q w = B w"
    using cmd len ne by (simp add: merge_controls_def Let_def B_def)
  then have e: "outcome (merge_controls S E q) w Q = outcome B w Q" for Q
    by (simp add: outcome_def)
  show ?thesis unfolding e B_def
    by (auto intro!: outcome_rules simp: session_maps_def)
qed


lemma app_merge_done_rejected:
  assumes cmd: "after_colon (cq_data q) = ascii ''done''"
    and len: "length (bucket_get (MERGE_BUCKET w) (cq_from_user q)) < 2
              \<or> FREE_MODE \<and> 10 < length (bucket_get (MERGE_BUCKET w) (cq_from_user q))"
  shows "outcome (app_merge_controls FREE_MODE base E q) w (\<lambda>r w'.
      session_maps w' = session_maps w \<and> disk w' = disk w \<and>
      take 1 (drop (length (trace w)) (trace w')) =
        [Answer (cq_chat q)
           (Txt (if length (bucket_get (MERGE_BUCKET w) (cq_from_user q)) < 2
                 then ''Send at least 2 PDFs.'' else ''Free mode: max 10 PDFs per merge.'')) No_kb])"
proof -
  have ne: "ascii ''done'' \<noteq> ascii ''clear''" "ascii ''done'' \<noteq> ascii ''cancel''"
    by (simp_all add: ascii_def)
  define B where "B = seq (tg E (Answer (cq_chat q)
           (Txt (if length (bucket_get (MERGE_BUCKET w) (cq_from_user q)) < 2
                 then ''Send at least 2 PDFs.'' else ''Free mode: max 10 PDFs per merge.'')) No_kb))
               (tg E (Callback_answer (cq_from_user q)))"
  have "app_merge_controls FREE_MODE base E q w = B w"
    using cmd len ne by (auto simp add: app_merge_controls_def Let_def B_def)
  then have e: "outcome (app_merge_controls FREE_MODE base E q) w Q = outcome B w Q" for Q
    by (simp add: outcome_def)
  show ?thesis unfolding e B_def
    by (auto intro!: outcome_rules simp: session_maps_def)
qed

lemma for_each3: "for_each [x, y, z] f = seq (f x) (seq (f y) (seq (f z) (ret ())))"
  by (simp add: for_each_def)

lemma app_merge_done_outcome:
  assumes cmd: "after_colon (cq_data q) = ascii ''done''"
    and len: "2 \<le> length (bucket_get (MERGE_BUCKET w) (cq_from_user q))"
    and cap: "\<not> (FREE_MODE \<and> 10 < length (bucket_get (MERGE_BUCKET w) (cq_from_user q)))"
  shows "outcome (app_merge_controls FREE_MODE base E q) w (\<lambda>r w'. r = Inr () \<longrightarrow>
      trace w' = trace w @ [Answer (cq_chat q) (Txt ''Merging...'') No_kb]
        @ map Merger_append (bucket_get (MERGE_BUCKET w) (cq_from_user q))
        @ [Merger_write (app_merged_pdf base (cq_from_user q)), Merger_close,
           Send_document (cq_chat q) (app_merged_pdf base (cq_from_user q)) ''Merged PDF'',
           Callback_answer (cq_from_user q)] \<and>
      MERGE_BUCKET w' = (MERGE_BUCKET w)(cq_from_user q := None) \<and>
      USER_STATE w' = (USER_STATE w)
        (cq_from_user q \<mapsto> \<lparr>menu = File_menu, action = None, rename_path = None\<rparr>))"
proof -
  have ne: "ascii ''done'' \<noteq> ascii ''clear''" "ascii ''done'' \<noteq> ascii ''cancel''"
    by (simp_all add: ascii_def)
  define B where "B = bind (user_dirs E base (cq_from_user q)) (\<lambda>(wd, dd, outdir).
             let out = join outdir (ascii ''merged.pdf'') in
             seq (tg E (Answer (cq_chat q) (Txt ''Merging...'') No_kb))
            (seq (bind (merge_pdfs E (bucket_get (MERGE_BUCKET w) (cq_from_user q)) out) (\<lambda>_. ret ()))
            (seq (app_send_file E (cq_chat q) out ''Merged PDF'')
            (seq (modify (\<lambda>w. w\<lparr>MERGE_BUCKET := (MERGE_BUCKET w)(cq_from_user q := None)\<rparr>))
            (seq (set_state (cq_from_user q) File_menu None None)
                 (tg E (Callback_answer (cq_from_user q))))))))"
  have "app_merge_controls FREE_MODE base E q w = B w"
    using cmd len cap ne by (auto simp add: app_merge_controls_def Let_def B_def)
  then have e: "outcome (app_merge_controls FREE_MODE base E q) w Q = outcome B w Q" for Q
    by (simp add: outcome_def)
  show ?thesis unfolding e B_def
    unfolding user_dirs_def for_each3 merge_pdfs_def app_send_file_def Let_def app_merged_pdf_def
    by (auto intro!: outcome_rules)
qed

text \<open>
  In an obliging environment the handlers do not fail on their own: once the directories
  of the user are made, the handler of app.py comes to its normal end, and the handler of
  bot.py does so unless the merged file is missing.
\<close>

lemma mkdirs_again: "mkdirs t p d = Inr d' \<Longrightarrow> mkdirs t' p d' = Inr d'"
proof (induction p arbitrary: d d')
  case Nil
  then show ?case by (cases d) auto
next
  case (Cons x xs)
  from mkdirs_was_dir[OF Cons.prems] obtain m es where d: "d = Dir m es" by blast
  show ?case
  proof (cases "map_of es x")
    case None
    with Cons.prems d obtain c where c: "mkdirs t xs (Dir t []) = Inr c"
      and d': "d' = Dir t (es @ [(x, c)])"
      by (auto split: sum.splits)
    from None have m: "map_of (es @ [(x, c)]) x = Some c" by (simp add: map_add_def)
    from Cons.IH[OF c] m d' show ?thesis by (simp add: update_triv)
  next
    case (Some c0)
    with Cons.prems d obtain c' where c: "mkdirs t xs c0 = Inr c'"
      and d': "d' = Dir m (AList.update x c' es)"
      by (auto split: sum.splits)
    have m: "map_of (AList.update x c' es) x = Some c'" by (simp add: update_conv')
    from Cons.IH[OF c] m d' show ?thesis by (simp add: update_triv)
  qed
qed

lemma tg_obliging: "obliging E \<Longrightarrow> tg E c w = (Inr (), w\<lparr>trace := trace w @ [c]\<rparr>)"
  by (simp add: obliging_def tg_def Let_def)

lemma lib_unit_obliging:
  "obliging E \<Longrightarrow> \<exists>d. lib_unit E c w = (Inr (), w\<lparr>trace := trace w @ [c], disk := d\<rparr>)"
proof -
  assume "obliging E"
  then obtain p d where "library E (trace w @ [c]) (disk w) = Inr (p, d)"
    unfolding obliging_def by blast
  then show ?thesis by (auto simp: lib_unit_def lib_def bind_def ret_def Let_def)
qed

lemma for_each_lib_unit_obliging:
  "obliging E \<Longrightarrow> \<exists>w'. for_each xs (\<lambda>x. lib_unit E (c x)) w = (Inr (), w')"
proof (induction xs arbitrary: w)
  case Nil
  then show ?case by (simp add: for_each_def ret_def)
next
  case (Cons x xs)
  from lib_unit_obliging[OF Cons.prems, of "c x" w] obtain w1 where
    1: "lib_unit E (c x) w = (Inr (), w1)" by blast
  from Cons.IH[OF Cons.prems, of w1] obtain w' where
    2: "for_each xs (\<lambda>x. lib_unit E (c x)) w1 = (Inr (), w')" by blast
  from 1 2 show ?case by (simp add: for_each_def seq_def bind_def)
qed

lemma merge_pdfs_obliging:
  assumes ob: "obliging E" and dir: "mkdirs t (parent out) d0 = Inr (disk w)"
  shows "\<exists>w'. merge_pdfs E pdfs out w = (Inr out, w')"
proof -
  from mkdirs_again[OF dir] have
    1: "mkdir_parents E (parent out) w = (Inr (), w)"
    by (simp add: mkdir_parents_def on_disk_def)
  from for_each_lib_unit_obliging[OF ob, of pdfs Merger_append w] obtain w1 where
    2: "for_each pdfs (\<lambda>p. lib_unit E (Merger_append p)) w = (Inr (), w1)" by blast
  from lib_unit_obliging[OF ob, of "Merger_write out" w1] obtain w2 where
    3: "lib_unit E (Merger_write out) w1 = (Inr (), w2)" by blast
  from lib_unit_obliging[OF ob, of Merger_close w2] obtain w3 where
    4: "lib_unit E Merger_close w2 = (Inr (), w3)" by blast
  from 1 2 3 4 show ?thesis
    by (simp add: merge_pdfs_def seq_def bind_def ret_def try_finally_def)
qed

lemma user_dirs_made:
  assumes "user_dirs E base u w = (Inr ds, w1)"
  shows "\<exists>t d0. mkdirs t (join (join base (str_int u)) (ascii ''output'')) d0 = Inr (disk w1)"
    and "ds = (join (join base (str_int u)) (ascii ''work''),
               join (join base (str_int u)) (ascii ''downloads''),
               join (join base (str_int u)) (ascii ''output''))"
  using assms
  by (auto simp: user_dirs_def Let_def for_each_def seq_def bind_def ret_def mkdir_parents_def
        on_disk_def split: sum.splits prod.splits) blast

lemma output_dir_made:
  assumes "output_dir E base u w = (Inr od, w1)"
  shows "\<exists>t d0. mkdirs t od d0 = Inr (disk w1)"
  using assms
  by (auto simp: output_dir_def user_dir_def ensure_dir_def seq_def bind_def ret_def
        mkdir_parents_def on_disk_def split: sum.splits prod.splits) blast

lemma parent_join_merged: "parent (join p (ascii ''merged.pdf'')) = p"
  by (simp add: parent_def join_def path_parts_def ascii_def)

lemma safe_filename_merged_pdf: "safe_filename (ascii ''merged.pdf'') = ascii ''merged.pdf''"
  by (simp add: ascii_def safe_filename_def strip_def is_space_def replace_newlines_def
        sub_illegal_def illegal_def illegal_chars_def)

lemma app_merge_done_succeeds:
  assumes cmd: "after_colon (cq_data q) = ascii ''done''"
    and len: "2 \<le> length (bucket_get (MERGE_BUCKET w) (cq_from_user q))"
    and cap: "\<not> (FREE_MODE \<and> 10 < length (bucket_get (MERGE_BUCKET w) (cq_from_user q)))"
    and ob: "obliging E"
    and dirs: "fst (user_dirs E base (cq_from_user q) w) = Inr ds"
  shows "fst (app_merge_controls FREE_MODE base E q w) = Inr ()"
proof -
  have ne: "ascii ''done'' \<noteq> ascii ''clear''" "ascii ''done'' \<noteq> ascii ''cancel''"
    by (simp_all add: ascii_def)
  let ?u = "cq_from_user q"
  let ?od = "join (join base (str_int ?u)) (ascii ''output'')"
  let ?out = "join ?od (ascii ''merged.pdf'')"
  obtain w1 where u: "user_dirs E base ?u w = (Inr ds, w1)"
    using dirs by (cases "user_dirs E base ?u w") simp
  note m = user_dirs_made[OF u]
  from m(1) obtain t d0 where d: "mkdirs t ?od d0 = Inr (disk w1)" by blast
  let ?w2 = "w1\<lparr>trace := trace w1 @ [Answer (cq_chat q) (Txt ''Merging...'') No_kb]\<rparr>"
  from d have "mkdirs t (parent ?out) d0 = Inr (disk ?w2)" by (simp add: parent_join_merged)
  from merge_pdfs_obliging[OF ob this, of "bucket_get (MERGE_BUCKET w) ?u"] obtain w3 where
    mp: "merge_pdfs E (bucket_get (MERGE_BUCKET w) ?u) ?out ?w2 = (Inr ?out, w3)" by blast
  show ?thesis
    using cmd len cap ne u m(2) mp
    by (simp add: app_merge_controls_def Let_def bind_def seq_def ret_def tg_obliging[OF ob]
          app_send_file_def modify_def set_state_def)
qed

lemma merge_done_ends:
  assumes cmd: "after_colon (cq_data q) = ascii ''done''"
    and len: "2 \<le> length (bucket_get (MERGE_BUCKET w) (cq_from_user q))"
    and ob: "obliging E"
    and dirs: "fst (output_dir E (base_dir S) (cq_from_user q) w) = Inr od"
  shows "fst (merge_controls S E q w) = Inr ()
         \<or> fst (merge_controls S E q w) = Inl OutputFileNotFound"
proof -
  have ne: "ascii ''done'' \<noteq> ascii ''clear''" "ascii ''done'' \<noteq> ascii ''cancel''"
    by (simp_all add: ascii_def)
  let ?u = "cq_from_user q"
  let ?out = "join od (ascii ''merged.pdf'')"
  obtain w1 where u: "output_dir E (base_dir S) ?u w = (Inr od, w1)"
    using dirs by (cases "output_dir E (base_dir S) ?u w") simp
  from output_dir_made[OF u] obtain t d0 where d: "mkdirs t od d0 = Inr (disk w1)" by blast
  let ?w2 = "w1\<lparr>trace := trace w1 @ [Answer (cq_chat q) (Txt ''Merging PDFs...'') No_kb]\<rparr>"
  from d have "mkdirs t (parent ?out) d0 = Inr (disk ?w2)" by (simp add: parent_join_merged)
  from merge_pdfs_obliging[OF ob this, of "bucket_get (MERGE_BUCKET w) ?u"] obtain w3 where
    mp: "merge_pdfs E (bucket_get (MERGE_BUCKET w) ?u) ?out ?w2 = (Inr ?out, w3)" by blast
  show ?thesis
    using cmd len ne u mp
    by (cases "exists (disk w3) ?out")
       (simp_all add: merge_controls_def Let_def bind_def seq_def ret_def tg_obliging[OF ob]
          try_finally_def send_file_def modify_def set_state_def do_merge_pdfs_def
          safe_filename_merged_pdf)
qed

lemmas run_defs = prog_defs fixture_defs plain_library_def after_colon_def
  bucket_get_def output_dir_def user_dir_def ensure_dir_def mkdir_parents_def
  for_each_def send_file_def exists_def join_def path_parts_def parent_def
  str_int_def ascii_def Let_def



text \<open>
  The two handlers run on a buffer of two PDFs, in the plain environment, where the
  merger writes its output; and the handler of app.py in the environment whose libraries
  do nothing.
\<close>

lemma merge_done_pressed_data:
  "after_colon (cq_data merge_done_pressed) = ascii ''done''"
  "cq_from_user merge_done_pressed = 7" "cq_chat merge_done_pressed = 7"
  by (simp_all add: merge_done_pressed_def after_colon_def ascii_def)

lemma two_pdfs_data:
  "bucket_get (MERGE_BUCKET two_pdfs) 7 = [[ascii ''a.pdf''], [ascii ''b.pdf'']]"
  "trace two_pdfs = []"
  by (simp_all add: two_pdfs_def bucket_get_def fixture_defs)

lemma bot_run_ends:
  "fst (merge_controls default_settings plain_env merge_done_pressed two_pdfs) = Inr ()"
  unfolding two_pdfs_def merge_done_pressed_def
  by (simp add: safe_filename_merged_pdf[unfolded ascii_def, simplified] run_defs
      merge_controls_def do_merge_pdfs_def merge_pdfs_def)

lemma app_run_ends:
  "fst (app_merge_controls True [ascii ''storage''] plain_env merge_done_pressed two_pdfs)
     = Inr ()"
  unfolding two_pdfs_def merge_done_pressed_def
  by (simp add: run_defs app_merge_controls_def merge_pdfs_def user_dirs_def app_send_file_def)

lemma idle_env_obliging: "obliging idle_env"
  by (simp add: obliging_def idle_env_def plain_env_def)

lemma idle_dirs:
  "fst (user_dirs idle_env [ascii ''storage''] 7 two_pdfs)
     = Inr ([ascii ''storage'', ascii ''7'', ascii ''work''],
            [ascii ''storage'', ascii ''7'', ascii ''downloads''],
            [ascii ''storage'', ascii ''7'', ascii ''output''])"
  unfolding two_pdfs_def
  by (simp add: run_defs user_dirs_def idle_env_def)


section \<open>The single-shot flows\<close>

lemmas opaque_rules =
  outcome_preserved[OF preserves_download[OF ignores_io_session_maps]]
  outcome_preserved[OF preserves_features(1)[OF ignores_io_session_maps]]
  outcome_preserved[OF preserves_features(2)[OF ignores_io_session_maps]]
  outcome_preserved[OF preserves_features(3)[OF ignores_io_session_maps]]
  outcome_preserved[OF preserves_features(6)[OF ignores_io_session_maps]]
  outcome_preserved[OF preserves_dirs(3)[OF ignores_io_session_maps]]
  outcome_preserved[OF preserves_dirs(4)[OF ignores_io_session_maps]]
  outcome_preserved[OF preserves_dirs(5)[OF ignores_io_session_maps]]

lemma outcome_ite_dep:
  "(c w \<Longrightarrow> outcome a w Q) \<Longrightarrow> (\<not> c w \<Longrightarrow> outcome b w Q)
     \<Longrightarrow> outcome (\<lambda>w. if c w then a w else b w) w Q"
  by (simp add: outcome_def)


lemma zip_flow:
  assumes act: "action (get_state w (from_user m)) = Some Zip_wait_file"
    and doc: "msg_document m = Some doc"
  shows "outcome (handle_message S E tbl m) w (\<lambda>r w'.
      (r = Inr () \<and> USER_STATE w' = (USER_STATE w)(from_user m \<mapsto> file_none) \<and>
         (\<exists>p. last (trace w') = Send_document (chat m) p ''Zipped'')) \<or>
      ((\<exists>e. r = Inl e) \<and> USER_STATE w' = USER_STATE w))"
proof -
  define B where "B = document_branch S E tbl m doc (Some Zip_wait_file)"
  have "handle_message S E tbl m w = B w"
    using act doc by (simp add: handle_message_def Let_def B_def)
  then have e: "outcome (handle_message S E tbl m) w Q = outcome B w Q" for Q
    by (simp add: outcome_def)
  show ?thesis unfolding e B_def document_branch_def zip_branch_def Let_def file_none_def
    by (auto intro!: opaque_rules outcome_rules simp: session_maps_def split: sum.splits)
qed

lemma unzip_flow:
  assumes act: "action (get_state w (from_user m)) = Some Unzip_wait_zip"
    and doc: "msg_document m = Some doc"
  shows "outcome (handle_message S E tbl m) w (\<lambda>r w'.
      (r = Inr () \<and> USER_STATE w' = (USER_STATE w)(from_user m \<mapsto> file_none) \<and>
         (\<exists>p. last (trace w') = Send_document (chat m) p ''Unzipped + rezipped'')) \<or>
      (r = Inr () \<and> USER_STATE w' = USER_STATE w \<and>
         last (trace w') = Reply (chat m) (Txt ''That file is not a valid ZIP.'') No_kb) \<or>
      ((\<exists>e. r = Inl e) \<and> USER_STATE w' = USER_STATE w))"
proof -
  define B where "B = document_branch S E tbl m doc (Some Unzip_wait_zip)"
  have "handle_message S E tbl m w = B w"
    using act doc by (simp add: handle_message_def Let_def B_def)
  then have e: "outcome (handle_message S E tbl m) w Q = outcome B w Q" for Q
    by (simp add: outcome_def)
  show ?thesis unfolding e B_def document_branch_def unzip_branch_def Let_def file_none_def
    by (auto intro!: opaque_rules outcome_rules outcome_ite_dep simp: session_maps_def split: sum.splits)
qed

lemma text2pdf_flow:
  assumes act: "action (get_state w (from_user m)) = Some Text2pdf_wait_text"
    and tx: "strip (text_or_empty m) \<noteq> []" "int (length (text_or_empty m)) \<le> max_text_len S"
  shows "outcome (handle_message S E tbl m) w (\<lambda>r w'.
      (r = Inr () \<and> USER_STATE w' = (USER_STATE w)(from_user m \<mapsto> file_none) \<and>
         (\<exists>p. last (trace w') = Send_document (chat m) p ''Text -> PDF'')) \<or>
      ((\<exists>e. r = Inl e) \<and> USER_STATE w' = USER_STATE w))"
proof -
  define B where "B = text2pdf_branch S E m"
  have "handle_message S E tbl m w = B w"
    using act by (simp add: handle_message_def Let_def B_def)
  then have e: "outcome (handle_message S E tbl m) w Q = outcome B w Q" for Q
    by (simp add: outcome_def)
  from tx show ?thesis unfolding e B_def text2pdf_branch_def Let_def file_none_def
    by (auto intro!: opaque_rules outcome_rules simp: session_maps_def split: sum.splits)
qed

lemma rename_flow:
  assumes act: "action (get_state w (from_user m)) = Some Rename_wait_newname"
    and doc: "msg_document m = None" and tx: "strip (text_or_empty m) \<noteq> []"
    and rp: "rename_path (get_state w (from_user m)) = Some fpath"
  shows "outcome (handle_message S E tbl m) w (\<lambda>r w'.
      (r = Inr () \<and> USER_STATE w' = (USER_STATE w)(from_user m \<mapsto> file_none) \<and>
         (\<exists>p. last (trace w') = Send_document (chat m) p ''Renamed'')) \<or>
      (r = Inr () \<and> USER_STATE w' = USER_STATE w \<and>
         (\<exists>e. last (trace w') = Reply (chat m) (Rename_failed e) No_kb)) \<or>
      ((\<exists>e. r = Inl e) \<and> USER_STATE w' = USER_STATE w))"
proof -
  define B where "B = rename_newname_branch E m (get_state w (from_user m))"
  have "handle_message S E tbl m w = B w"
    using act doc by (simp add: handle_message_def Let_def B_def)
  then have e: "outcome (handle_message S E tbl m) w Q = outcome B w Q" for Q
    by (simp add: outcome_def)
  from tx rp show ?thesis unfolding e B_def rename_newname_branch_def Let_def file_none_def
    by (auto intro!: opaque_rules outcome_rules simp: session_maps_def split: sum.splits)
qed


text \<open>
  Claim C2, as the code has it. An accepted proxy text always resets the session to
  \<open>{menu: proxy, action: none}\<close>. In the file flows the session is reset to
  \<open>{menu: file, action: none}\<close> exactly when the result has been sent: the handler then
  ends normally and its last call is the \<open>send_document\<close>. When the download, the
  operation or the sending raises, the handler ends with that exception and the sessions
  are as before; so they are when the unzip flow finds that the file is not a ZIP, and
  when the rename fails and the failure is reported.
\<close>

theorem single_shot_flows:
  assumes "handle_message S E tbl m w = (r, w')"
  shows
    "(action (get_state w (from_user m)) = Some Proxy_wait \<and>
      PROXY_RE_match (strip (text_or_empty m)) \<longrightarrow>
        USER_STATE w' = (USER_STATE w)
          (from_user m \<mapsto> \<lparr>menu = Proxy_menu, action = None, rename_path = None\<rparr>)) \<and>
     (action (get_state w (from_user m)) = Some Zip_wait_file \<and> msg_document m = Some doc \<longrightarrow>
        (r = Inr () \<and> USER_STATE w' = (USER_STATE w)(from_user m \<mapsto> file_none) \<and>
           (\<exists>p. last (trace w') = Send_document (chat m) p ''Zipped'')) \<or>
        ((\<exists>e. r = Inl e) \<and> USER_STATE w' = USER_STATE w)) \<and>
     (action (get_state w (from_user m)) = Some Unzip_wait_zip \<and> msg_document m = Some doc \<longrightarrow>
        (r = Inr () \<and> USER_STATE w' = (USER_STATE w)(from_user m \<mapsto> file_none) \<and>
           (\<exists>p. last (trace w') = Send_document (chat m) p ''Unzipped + rezipped'')) \<or>
        (r = Inr () \<and> USER_STATE w' = USER_STATE w \<and>
           last (trace w') = Reply (chat m) (Txt ''That file is not a valid ZIP.'') No_kb) \<or>
        ((\<exists>e. r = Inl e) \<and> USER_STATE w' = USER_STATE w)) \<and>
     (action (get_state w (from_user m)) = Some Text2pdf_wait_text \<and>
      strip (text_or_empty m) \<noteq> [] \<and> int (length (text_or_empty m)) \<le> max_text_len S \<longrightarrow>
        (r = Inr () \<and> USER_STATE w' = (USER_STATE w)(from_user m \<mapsto> file_none) \<and>
           (\<exists>p. last (trace w') = Send_document (chat m) p ''Text -> PDF'')) \<or>
        ((\<exists>e. r = Inl e) \<and> USER_STATE w' = USER_STATE w)) \<and>
     (action (get_state w (from_user m)) = Some Rename_wait_newname \<and> msg_document m = None \<and>
      strip (text_or_empty m) \<noteq> [] \<and> rename_path (get_state w (from_user m)) = Some fpath \<longrightarrow>
        (r = Inr () \<and> USER_STATE w' = (USER_STATE w)(from_user m \<mapsto> file_none) \<and>
           (\<exists>p. last (trace w') = Send_document (chat m) p ''Renamed'')) \<or>
        (r = Inr () \<and> USER_STATE w' = USER_STATE w \<and>
           (\<exists>e. last (trace w') = Reply (chat m) (Rename_failed e) No_kb)) \<or>
        ((\<exists>e. r = Inl e) \<and> USER_STATE w' = USER_STATE w))"
proof (intro conjI impI)
  assume "action (get_state w (from_user m)) = Some Proxy_wait \<and>
      PROXY_RE_match (strip (text_or_empty m))"
  then show "USER_STATE w' = (USER_STATE w)
          (from_user m \<mapsto> \<lparr>menu = Proxy_menu, action = None, rename_path = None\<rparr>)"
    using proxy_accept(2)[OF _ _ assms] by blast
next
  assume "action (get_state w (from_user m)) = Some Zip_wait_file \<and> msg_document m = Some doc"
  then show "(r = Inr () \<and> USER_STATE w' = (USER_STATE w)(from_user m \<mapsto> file_none) \<and>
           (\<exists>p. last (trace w') = Send_document (chat m) p ''Zipped'')) \<or>
        ((\<exists>e. r = Inl e) \<and> USER_STATE w' = USER_STATE w)"
    using outcomeD[OF zip_flow assms] by blast
next
  assume "action (get_state w (from_user m)) = Some Unzip_wait_zip \<and> msg_document m = Some doc"
  then show "(r = Inr () \<and> USER_STATE w' = (USER_STATE w)(from_user m \<mapsto> file_none) \<and>
           (\<exists>p. last (trace w') = Send_document (chat m) p ''Unzipped + rezipped'')) \<or>
        (r = Inr () \<and> USER_STATE w' = USER_STATE w \<and>
           last (trace w') = Reply (chat m) (Txt ''That file is not a valid ZIP.'') No_kb) \<or>
        ((\<exists>e. r = Inl e) \<and> USER_STATE w' = USER_STATE w)"
    using outcomeD[OF unzip_flow assms] by blast
next
  assume "action (get_state w (from_user m)) = Some Text2pdf_wait_text \<and>
      strip (text_or_empty m) \<noteq> [] \<and> int (length (text_or_empty m)) \<le> max_text_len S"
  then show "(r = Inr () \<and> USER_STATE w' = (USER_STATE w)(from_user m \<mapsto> file_none) \<and>
           (\<exists>p. last (trace w') = Send_document (chat m) p ''Text -> PDF'')) \<or>
        ((\<exists>e. r = Inl e) \<and> USER_STATE w' = USER_STATE w)"
    using outcomeD[OF text2pdf_flow assms] by blast
next
  assume "action (get_state w (from_user m)) = Some Rename_wait_newname \<and> msg_document m = None \<and>
      strip (text_or_empty m) \<noteq> [] \<and> rename_path (get_state w (from_user m)) = Some fpath"
  then show "(r = Inr () \<and> USER_STATE w' = (USER_STATE w)(from_user m \<mapsto> file_none) \<and>
           (\<exists>p. last (trace w') = Send_document (chat m) p ''Renamed'')) \<or>
        (r = Inr () \<and> USER_STATE w' = USER_STATE w \<and>
           (\<exists>e. last (trace w') = Reply (chat m) (Rename_failed e) No_kb)) \<or>
        ((\<exists>e. r = Inl e) \<and> USER_STATE w' = USER_STATE w)"
    using outcomeD[OF rename_flow assms] by blast
qed

lemma safe_filename_text_pdf: "safe_filename (ascii ''text.pdf'') = ascii ''text.pdf''"
  by (simp add: ascii_def safe_filename_def strip_def is_space_def replace_newlines_def
        sub_illegal_def illegal_def illegal_chars_def)

lemma hello_not_blank: "strip (ascii ''hello'') = ascii ''hello''"
  by (simp add: ascii_def strip_def is_space_def)

lemma length_ascii: "length (ascii s) = length s"
  by (simp add: ascii_def)

lemma ascii_nil: "ascii s = [] \<longleftrightarrow> s = []"
  by (simp add: ascii_def)

lemma hello_handled:
  "handle_message default_settings E tbl (text_message 7 ''hello'')
     (in_state 7 File_menu (Some Text2pdf_wait_text))
   = text2pdf_branch default_settings E (text_message 7 ''hello'')
       (in_state 7 File_menu (Some Text2pdf_wait_text))"
  by (simp add: handle_message_def Let_def get_state_def in_state_def empty_world_def
      text_message_def)

lemma hello_accepted:
  "text2pdf_branch default_settings E (text_message 7 ''hello'') =
   bind (output_dir E (base_dir default_settings) 7) (\<lambda>odir.
          let out = join odir (safe_filename (ascii ''text.pdf'')) in
          seq (message_answer E (text_message 7 ''hello'') (Txt ''Creating PDF...'') No_kb)
         (seq (bind (do_text_to_pdf E (ascii ''hello'') out) (\<lambda>_. ret ()))
         (seq (send_file E (chat (text_message 7 ''hello'')) out ''Text -> PDF'')
              (set_state 7 File_menu None None))))"
  unfolding text2pdf_branch_def Let_def
  by (simp add: hello_not_blank text_message_def text_or_empty_def default_settings_def
      length_ascii ascii_nil)

theorem single_shot_flows_witness:
  "action (get_state (in_state 7 File_menu (Some Text2pdf_wait_text)) 7) = Some Text2pdf_wait_text \<and>
   strip (ascii ''hello'') = ascii ''hello'' \<and>
   fst (handle_message default_settings plain_env (\<lambda>c. [c]) (text_message 7 ''hello'')
          (in_state 7 File_menu (Some Text2pdf_wait_text))) = Inr () \<and>
   USER_STATE (snd (handle_message default_settings plain_env (\<lambda>c. [c]) (text_message 7 ''hello'')
          (in_state 7 File_menu (Some Text2pdf_wait_text)))) 7 = Some file_none"
proof -
  let ?w = "in_state 7 File_menu (Some Text2pdf_wait_text)"
  let ?m = "text_message 7 ''hello''"
  have a: "action (get_state ?w (from_user ?m)) = Some Text2pdf_wait_text"
    by (simp add: fixture_defs)
  have a': "action (get_state ?w 7) = Some Text2pdf_wait_text"
    by (simp add: fixture_defs)
  have t: "text_or_empty ?m = ascii ''hello''" by (simp add: fixture_defs)
  have n: "strip (text_or_empty ?m) \<noteq> []" unfolding t hello_not_blank by (simp add: ascii_def)
  have l: "int (length (text_or_empty ?m)) \<le> max_text_len default_settings"
    unfolding t by (simp add: ascii_def default_settings_def)
  have ok: "fst (handle_message default_settings plain_env (\<lambda>c. [c]) ?m ?w) = Inr ()"
    unfolding hello_handled hello_accepted
    by (simp add: safe_filename_text_pdf[unfolded ascii_def, simplified] run_defs
        do_text_to_pdf_def text_to_pdf_def)
  from single_shot_flows[OF surjective_pairing, where S = default_settings and E = plain_env
      and tbl = "\<lambda>c. [c]" and m = ?m and w = ?w] a n l ok
  have "USER_STATE (snd (handle_message default_settings plain_env (\<lambda>c. [c]) ?m ?w))
          = (USER_STATE ?w)(from_user ?m \<mapsto> file_none)"
    by auto
  then have "USER_STATE (snd (handle_message default_settings plain_env (\<lambda>c. [c]) ?m ?w)) 7
          = Some file_none"
    by (simp add: text_message_def)
  with a' ok hello_not_blank show ?thesis by blast
qed

text \<open>
  Claim C2, as stated, fails: when the library that writes the PDF raises, the
  text-to-PDF flow ends with that exception and the action is still
  \<open>text2pdf_wait_text\<close>.
\<close>

theorem failed_text2pdf_keeps_action:
  "fst (handle_message default_settings failing_env (\<lambda>c. [c]) (text_message 7 ''hello'')
          (in_state 7 File_menu (Some Text2pdf_wait_text))) = Inl (External 1) \<and>
   action (get_state (snd (handle_message default_settings failing_env (\<lambda>c. [c])
          (text_message 7 ''hello'') (in_state 7 File_menu (Some Text2pdf_wait_text)))) 7)
     = Some Text2pdf_wait_text"
  unfolding hello_handled hello_accepted
  by (simp add: safe_filename_text_pdf[unfolded ascii_def, simplified] run_defs failing_env_def
        do_text_to_pdf_def text_to_pdf_def)

section \<open>The storage sweep\<close>

lemma lookup_child:
  "lookup d base = Some (Dir mb cur) \<Longrightarrow> lookup d (base @ [x]) = map_of cur x"
  by (simp add: lookup_append split: option.splits)

lemma put_entry_snoc_Cons:
  "put_entry t (b # bs @ [x]) r (Dir m es) =
     (case map_of es b of None \<Rightarrow> Dir m es
      | Some c \<Rightarrow> Dir m (AList.update b (put_entry t (bs @ [x]) r c) es))"
  by (cases bs) (auto split: option.splits)

lemma put_entry_at:
  "lookup d base = Some (Dir mb cur) \<Longrightarrow>
   lookup (put_entry t (base @ [x]) r d) base =
     Some (case r of None \<Rightarrow> Dir t (AList.delete x cur) | Some n' \<Rightarrow> Dir mb (AList.update x n' cur))"
proof (induction base arbitrary: d)
  case Nil
  then show ?case by (auto split: option.splits)
next
  case (Cons b bs)
  from Cons.prems obtain m es c where d: "d = Dir m es" and c: "map_of es b = Some c"
    and l: "lookup c bs = Some (Dir mb cur)"
    by (cases d) (auto split: option.splits)
  from Cons.IH[OF l] d c show ?case
    by (simp add: put_entry_snoc_Cons update_conv')
qed

lemma rmtree_effect:
  assumes b: "lookup (disk w) base = Some (Dir mb cur)"
    and c: "map_of cur x = Some n"
  shows "\<exists>mb' cur'. lookup (disk (snd (rmtree E (base @ [x]) w))) base = Some (Dir mb' cur') \<and>
           (\<forall>y. y \<noteq> x \<longrightarrow> map_of cur' y = map_of cur y) \<and>
           (rmtree_remnant E (trace w @ [Rmtree (base @ [x])]) n = None \<longrightarrow> cur' = AList.delete x cur)"
    and "trace (snd (rmtree E (base @ [x]) w)) = trace w @ [Rmtree (base @ [x])]"
    and "session_maps (snd (rmtree E (base @ [x]) w)) = session_maps w"
proof -
  from lookup_child[OF b, of x] c have l: "lookup (disk w) (base @ [x]) = Some n" by simp
  let ?r = "rmtree_remnant E (trace w @ [Rmtree (base @ [x])]) n"
  let ?t = "clock E (trace w @ [Rmtree (base @ [x])])"
  have d: "disk (snd (rmtree E (base @ [x]) w)) = put_entry ?t (base @ [x]) ?r (disk w)"
    using l by (simp add: rmtree_def Let_def)
  show "\<exists>mb' cur'. lookup (disk (snd (rmtree E (base @ [x]) w))) base = Some (Dir mb' cur') \<and>
           (\<forall>y. y \<noteq> x \<longrightarrow> map_of cur' y = map_of cur y) \<and>
           (?r = None \<longrightarrow> cur' = AList.delete x cur)"
    unfolding d put_entry_at[OF b]
    by (cases ?r) (auto simp: delete_conv' update_conv')
  show "trace (snd (rmtree E (base @ [x]) w)) = trace w @ [Rmtree (base @ [x])]"
    using l by (simp add: rmtree_def Let_def)
  show "session_maps (snd (rmtree E (base @ [x]) w)) = session_maps w"
    using l by (simp add: rmtree_def Let_def session_maps_def)
qed

text \<open>One round of the loop: the child is removed, kept, or its time cannot be read.\<close>

lemma cleanup_loop_step_old:
  assumes "lookup (disk w) base = Some (Dir mb cur)" "old cutoff (map_of cur x)"
    "dated_entry (map_of cur x)"
  shows "cleanup_loop E base cutoff (x # xs) n w
       = cleanup_loop E base cutoff xs (n + 1) (snd (rmtree E (base @ [x]) w))"
  using lookup_child[OF assms(1), of x] assms(2,3)
  by (auto simp: Let_def is_dir_def mtime_of_def old_def old_dir_def dated_entry_def dated_def
        fromtimestamp_def split: option.splits node.splits)

lemma cleanup_loop_step_keep:
  assumes "lookup (disk w) base = Some (Dir mb cur)" "\<not> old cutoff (map_of cur x)"
    "dated_entry (map_of cur x)"
  shows "cleanup_loop E base cutoff (x # xs) n w = cleanup_loop E base cutoff xs n w"
  using lookup_child[OF assms(1), of x] assms(2,3)
  by (auto simp: Let_def is_dir_def mtime_of_def old_def old_dir_def dated_entry_def dated_def
        fromtimestamp_def split: option.splits node.splits)

lemma cleanup_loop_step_raise:
  assumes "lookup (disk w) base = Some (Dir mb cur)" "\<not> dated_entry (map_of cur x)"
  shows "cleanup_loop E base cutoff (x # xs) n w = (Inl ValueError, w)"
  using lookup_child[OF assms(1), of x] assms(2)
  by (auto simp: Let_def is_dir_def mtime_of_def dated_entry_def dated_def
        fromtimestamp_def split: option.splits node.splits)

lemma cleanup_loop_append:
  "cleanup_loop E base cutoff (ys @ zs) n w =
     (case cleanup_loop E base cutoff ys n w of
        (Inl e, w1) \<Rightarrow> (Inl e, w1)
      | (Inr k, w1) \<Rightarrow> cleanup_loop E base cutoff zs k w1)"
  by (induction ys arbitrary: n w) (auto simp: Let_def split: sum.splits)

lemma old_Some: "old cutoff r \<Longrightarrow> \<exists>n. r = Some n"
  by (cases r) (simp_all add: old_def)

lemma cleanup_loop_count:
  assumes "lookup (disk w) base = Some (Dir mb cur)" "distinct xs"
    and "\<forall>x\<in>set xs. dated_entry (map_of cur x)"
  shows "fst (cleanup_loop E base cutoff xs n w)
           = Inr (n + int (length (filter (\<lambda>x. old cutoff (map_of cur x)) xs))) \<and>
         trace (snd (cleanup_loop E base cutoff xs n w))
           = trace w @ map (\<lambda>x. Rmtree (base @ [x])) (filter (\<lambda>x. old cutoff (map_of cur x)) xs) \<and>
         session_maps (snd (cleanup_loop E base cutoff xs n w)) = session_maps w \<and>
         (\<exists>mb' cur'. lookup (disk (snd (cleanup_loop E base cutoff xs n w))) base
                        = Some (Dir mb' cur') \<and>
                      (\<forall>y. y \<notin> set xs \<longrightarrow> map_of cur' y = map_of cur y))"
  using assms
proof (induction xs arbitrary: n w mb cur)
  case Nil
  then show ?case by simp
next
  case (Cons x xs)
  from Cons.prems(2) have dx: "distinct xs" and nx: "x \<notin> set xs" by simp_all
  from Cons.prems(3) have tx: "dated_entry (map_of cur x)"
    and txs: "\<forall>y\<in>set xs. dated_entry (map_of cur y)" by simp_all
  show ?case
  proof (cases "old cutoff (map_of cur x)")
    case True
    then obtain nd where nd: "map_of cur x = Some nd" using old_Some by blast
    let ?w1 = "snd (rmtree E (base @ [x]) w)"
    from rmtree_effect[OF Cons.prems(1) nd, of E]
    obtain mb' cur' where b': "lookup (disk ?w1) base = Some (Dir mb' cur')"
      and same: "\<forall>y. y \<noteq> x \<longrightarrow> map_of cur' y = map_of cur y"
      and tr: "trace ?w1 = trace w @ [Rmtree (base @ [x])]"
      and sm: "session_maps ?w1 = session_maps w"
      by blast
    have f: "filter (\<lambda>y. old cutoff (map_of cur' y)) xs = filter (\<lambda>y. old cutoff (map_of cur y)) xs"
      using same nx by (intro filter_cong) auto
    have t': "\<forall>y\<in>set xs. dated_entry (map_of cur' y)" using same nx txs by auto
    from Cons.IH[OF b' dx t', of "n + 1"]
    obtain mb2 cur2 where
      i1: "fst (cleanup_loop E base cutoff xs (n + 1) ?w1)
             = Inr (n + 1 + int (length (filter (\<lambda>x. old cutoff (map_of cur' x)) xs)))"
      and i2: "trace (snd (cleanup_loop E base cutoff xs (n + 1) ?w1))
             = trace ?w1 @ map (\<lambda>x. Rmtree (base @ [x])) (filter (\<lambda>x. old cutoff (map_of cur' x)) xs)"
      and i3: "session_maps (snd (cleanup_loop E base cutoff xs (n + 1) ?w1)) = session_maps ?w1"
      and i4: "lookup (disk (snd (cleanup_loop E base cutoff xs (n + 1) ?w1))) base
             = Some (Dir mb2 cur2)"
      and i5: "\<forall>y. y \<notin> set xs \<longrightarrow> map_of cur2 y = map_of cur' y"
      by blast
    from i5 same have i6: "\<forall>y. y \<notin> set (x # xs) \<longrightarrow> map_of cur2 y = map_of cur y" by simp
    from i1 i2 i3 i4 i6 show ?thesis
      unfolding cleanup_loop_step_old[OF Cons.prems(1) True tx] f using True tr sm by simp
  next
    case False
    from Cons.IH[OF Cons.prems(1) dx txs, of n] show ?thesis
      unfolding cleanup_loop_step_keep[OF Cons.prems(1) False tx] using False by auto
  qed
qed

lemma cleanup_loop_entries:
  assumes "lookup (disk w) base = Some (Dir mb cur)" "distinct xs"
    and "\<forall>x\<in>set xs. dated_entry (map_of cur x)"
    and clean: "\<And>tr n. rmtree_remnant E tr n = None"
  shows "\<exists>mb'. lookup (disk (snd (cleanup_loop E base cutoff xs n w))) base
           = Some (Dir mb' (filter (\<lambda>e. \<not> (fst e \<in> set xs \<and> old cutoff (map_of cur (fst e)))) cur))"
  using assms(1,2,3)
proof (induction xs arbitrary: n w mb cur)
  case Nil
  then show ?case by simp
next
  case (Cons x xs)
  from Cons.prems(2) have dx: "distinct xs" and nx: "x \<notin> set xs" by simp_all
  from Cons.prems(3) have tx: "dated_entry (map_of cur x)"
    and txs: "\<forall>y\<in>set xs. dated_entry (map_of cur y)" by simp_all
  show ?case
  proof (cases "old cutoff (map_of cur x)")
    case True
    then obtain nd where nd: "map_of cur x = Some nd" using old_Some by blast
    let ?w1 = "snd (rmtree E (base @ [x]) w)"
    from rmtree_effect(1)[OF Cons.prems(1) nd, of E] clean
    obtain mb' where b': "lookup (disk ?w1) base = Some (Dir mb' (AList.delete x cur))"
      by auto
    have d: "AList.delete x cur = filter (\<lambda>e. fst e \<noteq> x) cur"
      by (induction cur) auto
    have t': "\<forall>y\<in>set xs. dated_entry (map_of (AList.delete x cur) y)"
      using txs nx by (auto simp: delete_conv')
    have "filter (\<lambda>e. \<not> (fst e \<in> set xs \<and> old cutoff (map_of (AList.delete x cur) (fst e))))
            (AList.delete x cur)
        = filter (\<lambda>e. \<not> (fst e \<in> set (x # xs) \<and> old cutoff (map_of cur (fst e)))) cur"
      unfolding d filter_filter using True
      by (intro filter_cong) (auto simp: d[symmetric] delete_conv')
    with Cons.IH[OF b' dx t', of "n + 1"] show ?thesis
      unfolding cleanup_loop_step_old[OF Cons.prems(1) True tx] by simp
  next
    case False
    have "filter (\<lambda>e. \<not> (fst e \<in> set xs \<and> old cutoff (map_of cur (fst e)))) cur
        = filter (\<lambda>e. \<not> (fst e \<in> set (x # xs) \<and> old cutoff (map_of cur (fst e)))) cur"
      using False by (intro filter_cong) auto
    with Cons.IH[OF Cons.prems(1) dx txs, of n] show ?thesis
      unfolding cleanup_loop_step_keep[OF Cons.prems(1) False tx] by simp
  qed
qed

text \<open>The loop stops at the first directory whose time cannot be read.\<close>

lemma cleanup_loop_raises:
  assumes b: "lookup (disk w) base = Some (Dir mb cur)" and d: "distinct (ys @ x # zs)"
    and ok: "\<forall>y\<in>set ys. dated_entry (map_of cur y)" and bad: "\<not> dated_entry (map_of cur x)"
  shows "fst (cleanup_loop E base cutoff (ys @ x # zs) n w) = Inl ValueError"
    and "trace (snd (cleanup_loop E base cutoff (ys @ x # zs) n w))
           = trace w @ map (\<lambda>x. Rmtree (base @ [x])) (filter (\<lambda>x. old cutoff (map_of cur x)) ys)"
    and "session_maps (snd (cleanup_loop E base cutoff (ys @ x # zs) n w)) = session_maps w"
proof -
  from d have dy: "distinct ys" and nx: "x \<notin> set ys" by simp_all
  let ?r = "cleanup_loop E base cutoff ys n w"
  from cleanup_loop_count[OF b dy ok, of E cutoff n]
  obtain mb' cur' where
    c1: "fst ?r = Inr (n + int (length (filter (\<lambda>x. old cutoff (map_of cur x)) ys)))"
    and c2: "trace (snd ?r)
           = trace w @ map (\<lambda>x. Rmtree (base @ [x])) (filter (\<lambda>x. old cutoff (map_of cur x)) ys)"
    and c3: "session_maps (snd ?r) = session_maps w"
    and c4: "lookup (disk (snd ?r)) base = Some (Dir mb' cur')"
    and c5: "\<forall>y. y \<notin> set ys \<longrightarrow> map_of cur' y = map_of cur y"
    by blast
  from c5 nx bad have bad': "\<not> dated_entry (map_of cur' x)" by simp
  have e: "cleanup_loop E base cutoff (ys @ x # zs) n w = (Inl ValueError, snd ?r)"
    unfolding cleanup_loop_append
    using c1 cleanup_loop_step_raise[OF c4 bad', of E cutoff zs]
    by (cases ?r) (auto split: sum.splits)
  show "fst (cleanup_loop E base cutoff (ys @ x # zs) n w) = Inl ValueError"
    unfolding e by simp
  show "trace (snd (cleanup_loop E base cutoff (ys @ x # zs) n w))
           = trace w @ map (\<lambda>x. Rmtree (base @ [x])) (filter (\<lambda>x. old cutoff (map_of cur x)) ys)"
    unfolding e using c2 by simp
  show "session_maps (snd (cleanup_loop E base cutoff (ys @ x # zs) n w)) = session_maps w"
    unfolding e using c3 by simp
qed

lemma old_entry:
  "distinct (map fst es) \<Longrightarrow> e \<in> set es \<Longrightarrow> old cutoff (map_of es (fst e)) = old_dir cutoff (snd e)"
  by (cases e) (simp add: old_def)

lemma dated_entry_entry:
  "distinct (map fst es) \<Longrightarrow> e \<in> set es \<Longrightarrow> dated_entry (map_of es (fst e)) = dated (snd e)"
  by (cases e) (simp add: dated_entry_def)

lemma old_names:
  assumes "distinct (map fst es)" "set fs \<subseteq> set es"
  shows "filter (\<lambda>x. old cutoff (map_of es x)) (map fst fs)
       = map fst (filter (\<lambda>e. old_dir cutoff (snd e)) fs)"
proof -
  have "filter (\<lambda>e. old cutoff (map_of es (fst e))) fs = filter (\<lambda>e. old_dir cutoff (snd e)) fs"
  proof (rule filter_cong[OF refl])
    fix e assume "e \<in> set fs"
    with assms(2) have "e \<in> set es" by blast
    from old_entry[OF assms(1) this]
    show "old cutoff (map_of es (fst e)) = old_dir cutoff (snd e)" .
  qed
  then show ?thesis by (simp add: filter_map comp_def)
qed

lemma kept_entries:
  assumes "distinct (map fst es)"
  shows "filter (\<lambda>e. \<not> (fst e \<in> set (map fst es) \<and> old cutoff (map_of es (fst e)))) es
       = filter (\<lambda>e. \<not> old_dir cutoff (snd e)) es"
  by (rule filter_cong) (auto simp: old_entry[OF assms])

lemma cleanup_old_dir:
  assumes "lookup (disk w) base = Some (Dir mb es)" "distinct (map fst es)"
    and "cutoff_of (clock E (trace w)) hours = Inr cutoff"
    and "\<forall>e\<in>set es. dated (snd e)"
  shows "fst (cleanup_old E base hours w)
           = Inr (int (length (filter (\<lambda>e. old_dir cutoff (snd e)) es)))"
    and "trace (snd (cleanup_old E base hours w))
           = trace w @ map (\<lambda>e. Rmtree (base @ [fst e])) (filter (\<lambda>e. old_dir cutoff (snd e)) es)"
    and "session_maps (snd (cleanup_old E base hours w)) = session_maps w"
    and "(\<And>tr n. rmtree_remnant E tr n = None) \<Longrightarrow>
         \<exists>mb'. lookup (disk (snd (cleanup_old E base hours w))) base
           = Some (Dir mb' (filter (\<lambda>e. \<not> old_dir cutoff (snd e)) es))"
proof -
  have c: "cleanup_old E base hours w = cleanup_loop E base cutoff (map fst es) 0 w"
    using assms(1,3) by (simp add: cleanup_old_def exists_def)
  have t: "\<forall>x\<in>set (map fst es). dated_entry (map_of es x)"
    using assms(4) dated_entry_entry[OF assms(2)] by auto
  note l = cleanup_loop_count[OF assms(1,2) t, of E cutoff 0,
      unfolded old_names[OF assms(2) subset_refl]]
  from l show "fst (cleanup_old E base hours w)
           = Inr (int (length (filter (\<lambda>e. old_dir cutoff (snd e)) es)))"
    unfolding c by simp
  from l show "trace (snd (cleanup_old E base hours w))
           = trace w @ map (\<lambda>e. Rmtree (base @ [fst e])) (filter (\<lambda>e. old_dir cutoff (snd e)) es)"
    unfolding c by (simp add: comp_def)
  from l show "session_maps (snd (cleanup_old E base hours w)) = session_maps w"
    unfolding c by simp
  assume "\<And>tr n. rmtree_remnant E tr n = None"
  from cleanup_loop_entries[OF assms(1,2) t this, of cutoff 0]
  show "\<exists>mb'. lookup (disk (snd (cleanup_old E base hours w))) base
           = Some (Dir mb' (filter (\<lambda>e. \<not> old_dir cutoff (snd e)) es))"
    unfolding c kept_entries[OF assms(2)] .
qed

lemma cleanup_old_undated:
  assumes b: "lookup (disk w) base = Some (Dir mb es)" and d: "distinct (map fst es)"
    and k: "cutoff_of (clock E (trace w)) hours = Inr cutoff"
    and u: "\<not> (\<forall>e\<in>set es. dated (snd e))"
  shows "fst (cleanup_old E base hours w) = Inl ValueError"
    and "trace (snd (cleanup_old E base hours w))
           = trace w @ map (\<lambda>e. Rmtree (base @ [fst e]))
               (filter (\<lambda>e. old_dir cutoff (snd e)) (takeWhile (\<lambda>e. dated (snd e)) es))"
    and "session_maps (snd (cleanup_old E base hours w)) = session_maps w"
proof -
  let ?P = "\<lambda>e. dated (snd e)"
  have c: "cleanup_old E base hours w = cleanup_loop E base cutoff (map fst es) 0 w"
    using b k by (simp add: cleanup_old_def exists_def)
  from u have ne: "dropWhile ?P es \<noteq> []" by (simp add: dropWhile_eq_Nil_conv)
  then obtain e rest where dw: "dropWhile ?P es = e # rest" by (cases "dropWhile ?P es") auto
  have es: "es = takeWhile ?P es @ e # rest" using dw takeWhile_dropWhile_id[of ?P es] by simp
  have bad: "\<not> dated (snd e)" using hd_dropWhile[OF ne] dw by simp
  have "e \<in> set es" using es by (metis in_set_conv_decomp)
  with bad have bad': "\<not> dated_entry (map_of es (fst e))"
    using dated_entry_entry[OF d] by simp
  have sub: "set (takeWhile ?P es) \<subseteq> set es" using set_takeWhileD by fastforce
  have ok: "\<forall>y\<in>set (map fst (takeWhile ?P es)). dated_entry (map_of es y)"
  proof
    fix y assume "y \<in> set (map fst (takeWhile ?P es))"
    then obtain f where f: "f \<in> set (takeWhile ?P es)" and y: "y = fst f" by auto
    from set_takeWhileD[OF f] have "f \<in> set es" "dated (snd f)" by simp_all
    with dated_entry_entry[OF d] y show "dated_entry (map_of es y)" by simp
  qed
  have names: "map fst es = map fst (takeWhile ?P es) @ fst e # map fst rest"
    using arg_cong[OF es, of "map fst"] by simp
  from d names have dn: "distinct (map fst (takeWhile ?P es) @ fst e # map fst rest)" by simp
  note l = cleanup_loop_raises[OF b dn ok bad', of E cutoff 0,
      folded names, unfolded old_names[OF d sub]]
  from l(1) show "fst (cleanup_old E base hours w) = Inl ValueError" unfolding c .
  from l(2) show "trace (snd (cleanup_old E base hours w))
           = trace w @ map (\<lambda>e. Rmtree (base @ [fst e]))
               (filter (\<lambda>e. old_dir cutoff (snd e)) (takeWhile (\<lambda>e. dated (snd e)) es))"
    unfolding c by (simp add: comp_def)
  from l(3) show "session_maps (snd (cleanup_old E base hours w)) = session_maps w"
    unfolding c .
qed

lemma put_entry_outside:
  "\<not> prefix q p \<Longrightarrow> \<not> prefix p q \<Longrightarrow> lookup (put_entry t p r d) q = lookup d q"
proof (induction t p r d arbitrary: q rule: put_entry.induct)
  case (1 t r n)
  then show ?case by simp
next
  case (2 t x xs r c)
  then show ?case by simp
next
  case (3 t x r m es)
  then obtain y ys where q: "q = y # ys" and "y \<noteq> x" by (cases q) auto
  then show ?case by (cases r) (simp_all add: delete_conv' update_conv')
next
  case (4 t x y ys r m es)
  from 4(2) obtain z zs where q: "q = z # zs" by (cases q) auto
  show ?case
  proof (cases "map_of es x")
    case None then show ?thesis by simp
  next
    case (Some n)
    show ?thesis
    proof (cases "z = x")
      case True
      with 4(2,3) q have "\<not> prefix zs (y # ys)" "\<not> prefix (y # ys) zs" by auto
      from 4(1)[OF Some this] Some True q show ?thesis by (simp add: update_conv')
    next
      case False
      with Some q show ?thesis by (simp add: update_conv')
    qed
  qed
qed

lemma rmtree_outside:
  "\<not> prefix q p \<Longrightarrow> \<not> prefix p q \<Longrightarrow> lookup (disk (snd (rmtree E p w))) q = lookup (disk w) q"
  by (simp add: rmtree_def Let_def put_entry_outside split: option.splits)

lemma cleanup_loop_outside:
  assumes "\<not> prefix q base" "\<not> prefix base q"
  shows "lookup (disk (snd (cleanup_loop E base cutoff xs n w))) q = lookup (disk w) q"
proof (induction xs arbitrary: n w)
  case Nil show ?case by simp
next
  case (Cons x xs)
  from assms have "\<not> prefix q (base @ [x])" "\<not> prefix (base @ [x]) q"
    by (auto simp: prefix_def) (metis append_eq_append_conv2)
  from rmtree_outside[OF this, of E w] Cons show ?case by (simp add: Let_def split: sum.splits)
qed

lemma cleanup_old_outside:
  assumes "\<not> prefix q base" "\<not> prefix base q"
  shows "lookup (disk (snd (cleanup_old E base hours w))) q = lookup (disk w) q"
  by (auto simp: cleanup_old_def Let_def cleanup_loop_outside[OF assms]
      split: option.splits node.splits sum.splits)


lemma swept_disk_base:
  "lookup swept_disk [ascii ''storage''] = Some (Dir 0
       [(ascii ''1'', Dir (- 172800000000) [(ascii ''work'', Dir (- 172800000000)
            [(ascii ''a.pdf'', File (Bytes [1, 2, 3]))])]),
        (ascii ''2'', Dir 0 [(ascii ''work'', Dir 0 [])]),
        (ascii ''notes.txt'', File (Bytes []))])"
  by (simp add: swept_disk_def)

lemma cutoff_a_day_ago: "cutoff_of 0 24 = Inr (- 86400000000)"
  by (simp add: cutoff_of_def timedelta_hours_def datetime_sub_def representable_def
        datetime_min_def datetime_max_def)



section \<open>The names in an archive\<close>

lemma write_file_lookup:
  "write_file t p c d = Inr d' \<Longrightarrow> lookup d' p = Some (File c)"
proof (induction t p c d arbitrary: d' rule: write_file.induct)
  case (1 t c n) then show ?case by simp
next
  case (2 t x xs c c') then show ?case by simp
next
  case (3 t x c m es)
  then show ?case by (auto split: option.splits node.splits simp: update_conv')
next
  case (4 t x y ys c m es)
  then show ?case by (auto split: option.splits sum.splits simp: update_conv')
qed

lemma write_file_outside:
  "write_file t p c d = Inr d' \<Longrightarrow> \<not> prefix q p \<Longrightarrow> lookup d' q = lookup d q"
proof (induction t p c d arbitrary: d' q rule: write_file.induct)
  case (1 t c n) then show ?case by simp
next
  case (2 t x xs c c') then show ?case by simp
next
  case (3 t x c m es)
  from 3(2) obtain z zs where q: "q = z # zs" by (cases q) auto
  show ?case
  proof (cases "z = x")
    case True
    with 3(2) q have zs: "zs \<noteq> []" by auto
    then obtain a as where "zs = a # as" by (cases zs) auto
    with 3(1) q True show ?thesis
      by (auto split: option.splits node.splits simp: update_conv')
  next
    case False
    with 3(1) q show ?thesis
      by (auto split: option.splits node.splits simp: update_conv')
  qed
next
  case (4 t x y ys c m es)
  from 4(3) obtain z zs where q: "q = z # zs" by (cases q) auto
  from 4(2) obtain n n' where n: "map_of es x = Some n"
    and w: "write_file t (y # ys) c n = Inr n'" and d': "d' = Dir m (AList.update x n' es)"
    by (auto split: option.splits sum.splits)
  show ?case
  proof (cases "z = x")
    case True
    with 4(3) q have "\<not> prefix zs (y # ys)" by auto
    from 4(1)[OF n w this] n d' q True show ?thesis by (simp add: update_conv')
  next
    case False
    with d' q show ?thesis by (simp add: update_conv')
  qed
qed

lemma lookup_fresh_chain:
  "mkdirs t xs (Dir t []) = Inr n \<Longrightarrow> \<not> prefix q xs \<Longrightarrow> lookup n q = None"
proof (induction xs arbitrary: n q)
  case Nil
  then show ?case by (cases q) auto
next
  case (Cons x xs)
  from Cons.prems(1) obtain c where c: "mkdirs t xs (Dir t []) = Inr c" and n: "n = Dir t [(x, c)]"
    by (auto split: sum.splits)
  from Cons.prems(2) obtain z zs where q: "q = z # zs" by (cases q) auto
  show ?case
  proof (cases "z = x")
    case True
    with Cons.prems(2) q have "\<not> prefix zs xs" by auto
    from Cons.IH[OF c this] n q True show ?thesis by simp
  next
    case False with n q show ?thesis by simp
  qed
qed

lemma mkdirs_outside:
  "mkdirs t xs d = Inr d' \<Longrightarrow> \<not> prefix q xs \<Longrightarrow> lookup d' q = lookup d q"
proof (induction xs arbitrary: d d' q)
  case Nil
  then show ?case by (cases d) auto
next
  case (Cons x xs)
  from mkdirs_was_dir[OF Cons.prems(1)] obtain m es where d: "d = Dir m es" by blast
  from Cons.prems(2) obtain z zs where q: "q = z # zs" by (cases q) auto
  show ?case
  proof (cases "map_of es x")
    case None
    with Cons.prems(1) d obtain c where c: "mkdirs t xs (Dir t []) = Inr c"
      and d': "d' = Dir t (es @ [(x, c)])"
      by (auto split: sum.splits)
    show ?thesis
    proof (cases "z = x")
      case True
      with Cons.prems(2) q have "\<not> prefix zs xs" by auto
      from lookup_fresh_chain[OF c this] None d d' q True show ?thesis
        by (simp add: map_add_def split: option.splits)
    next
      case False
      with None d d' q show ?thesis by (auto simp: map_add_def split: option.splits)
    qed
  next
    case (Some c0)
    with Cons.prems(1) d obtain c' where c: "mkdirs t xs c0 = Inr c'"
      and d': "d' = Dir m (AList.update x c' es)"
      by (auto split: sum.splits)
    show ?thesis
    proof (cases "z = x")
      case True
      with Cons.prems(2) q have "\<not> prefix zs xs" by auto
      from Cons.IH[OF c this] Some d d' q True show ?thesis by (simp add: update_conv')
    next
      case False
      with d d' q show ?thesis by (simp add: update_conv')
    qed
  qed
qed

text \<open>The walk lists the paths below its start, and every entry below it.\<close>

lemma iterate_directories_paths:
  "(q, n) \<in> set (iterate_directories p nd) \<Longrightarrow> \<exists>rest. q = p @ rest"
proof (induction p nd arbitrary: q n rule: iterate_directories.induct)
  case (1 p c) then show ?case by simp
next
  case (2 p m es)
  from 2(2) consider "q = p" | e where "e \<in> set es"
    "(q, n) \<in> set (iterate_directories (p @ [fst e]) (snd e))"
    by auto
  then show ?case
  proof cases
    case 1 then show ?thesis by simp
  next
    case 2
    from "2.IH"[OF 2] obtain rest where "q = (p @ [fst e]) @ rest" by blast
    then show ?thesis by simp
  qed
qed

lemma rglob_paths:
  assumes "(q, n) \<in> set (rglob d p)"
  shows "\<exists>rest. rest \<noteq> [] \<and> q = p @ rest"
proof -
  from assms obtain nd q0 n0 where "(q0, n0) \<in> set (iterate_directories p nd)"
    and c: "(q, n) \<in> set (children (q0, n0))"
    by (auto simp: rglob_def split: option.splits)
  from iterate_directories_paths[OF this(1)] obtain r where q0: "q0 = p @ r" by blast
  from c obtain x where "q = q0 @ [x]" by (auto simp: children_def split: node.splits)
  with q0 show ?thesis by simp
qed

lemma iterate_directories_complete:
  "lookup nd q = Some (Dir m es) \<Longrightarrow> (p @ q, Dir m es) \<in> set (iterate_directories p nd)"
proof (induction q arbitrary: p nd)
  case Nil
  then show ?case by simp
next
  case (Cons x q)
  from Cons.prems obtain m0 es0 c where nd: "nd = Dir m0 es0" and c: "map_of es0 x = Some c"
    and l: "lookup c q = Some (Dir m es)"
    by (cases nd) (auto split: option.splits)
  from c have e: "(x, c) \<in> set es0" by (rule map_of_SomeD)
  from Cons.IH[OF l, of "p @ [x]"]
  have "(p @ x # q, Dir m es) \<in> set (iterate_directories (p @ [x]) c)" by simp
  with e nd show ?case by force
qed

lemma rglob_complete:
  assumes "lookup d (p @ rest) = Some n" and "rest \<noteq> []"
  shows "(p @ rest, n) \<in> set (rglob d p)"
proof -
  from assms(2) obtain q x where rest: "rest = q @ [x]" by (cases rest rule: rev_cases) auto
  from assms(1) obtain nd where nd: "lookup d p = Some nd" and l: "lookup nd (q @ [x]) = Some n"
    by (auto simp: lookup_append rest split: option.splits)
  from l obtain nq where nq: "lookup nd q = Some nq" and lx: "lookup nq [x] = Some n"
    by (auto simp: lookup_append split: option.splits)
  from lx obtain m es where d: "nq = Dir m es" and x: "map_of es x = Some n"
    by (cases nq) (auto split: option.splits)
  from iterate_directories_complete[OF nq[unfolded d], of p]
  have "(p @ q, Dir m es) \<in> set (iterate_directories p nd)" .
  moreover from map_of_SomeD[OF x] have "(p @ q @ [x], n) \<in> set (children (p @ q, Dir m es))"
    by (force simp: children_def)
  ultimately show ?thesis unfolding rest using nd by (force simp: rglob_def)
qed

lemma files_under_paths:
  assumes "sub \<in> set (files_under d p)"
  shows "\<exists>rest. rest \<noteq> [] \<and> sub = p @ rest"
proof -
  from assms obtain n where "(sub, n) \<in> set (rglob d p)"
    by (auto simp: files_under_def)
  then show ?thesis by (rule rglob_paths)
qed

text \<open>The files under a directory are the files of the disk at the paths below it.\<close>

lemma files_under_iff:
  "sub \<in> set (files_under d p) \<longleftrightarrow> (\<exists>rest. rest \<noteq> [] \<and> sub = p @ rest \<and> is_file d sub)"
proof
  assume a: "sub \<in> set (files_under d p)"
  then have "is_file d sub" by (simp add: files_under_def)
  with files_under_paths[OF a] show "\<exists>rest. rest \<noteq> [] \<and> sub = p @ rest \<and> is_file d sub"
    by blast
next
  assume "\<exists>rest. rest \<noteq> [] \<and> sub = p @ rest \<and> is_file d sub"
  then obtain rest where r: "rest \<noteq> []" "sub = p @ rest" and f: "is_file d sub" by blast
  from f obtain c where "lookup d sub = Some (File c)"
    by (auto simp: is_file_def split: option.splits node.splits)
  from rglob_complete[OF this[unfolded r(2)] r(1)] r(2) have "sub \<in> fst ` set (rglob d p)"
    by force
  with f show "sub \<in> set (files_under d p)" by (simp add: files_under_def)
qed

lemma files_under_outside:
  assumes "sub \<in> set (files_under d p)" and "\<not> prefix p out"
  shows "\<not> prefix sub out"
proof -
  from files_under_paths[OF assms(1)] obtain rest where "sub = p @ rest" by blast
  with assms(2) show ?thesis by (auto dest: append_prefixD)
qed

text \<open>The name of a file below a directory starts with the name of the directory.\<close>

lemma join_slash_Cons: "rest \<noteq> [] \<Longrightarrow> join_slash (x # rest) = x @ [0x2F] @ join_slash rest"
  by (cases rest) auto

lemma relative_to_parent:
  assumes "p \<noteq> []" and "rest \<noteq> []"
  shows "join_slash (relative_to (p @ rest) (parent p)) = name_of p @ [0x2F] @ join_slash rest"
proof -
  from assms(1) have "p = butlast p @ [last p]" by simp
  then have "drop (length (butlast p)) (p @ rest) = last p # rest"
    by (metis append_Cons append_Nil append_assoc append_eq_conv_conj)
  with assms show ?thesis
    by (simp add: relative_to_def parent_def name_of_def join_slash_Cons del: length_butlast)
qed

text \<open>What is stored for a path depends on the disk at and below that path only.\<close>

lemma stored_cong:
  assumes same: "\<And>q. \<not> prefix q out \<Longrightarrow> lookup d' q = lookup d q" and p: "\<not> prefix p out"
  shows "stored d' p = stored d p"
proof -
  have lp: "lookup d' p = lookup d p" using same p by blast
  then have r: "rglob d' p = rglob d p" by (simp add: rglob_def)
  have f: "is_file d' sub = is_file d sub" if "sub \<in> fst ` set (rglob d p)" for sub
  proof -
    from that obtain n where "(sub, n) \<in> set (rglob d p)" by auto
    from rglob_paths[OF this] obtain rest where "sub = p @ rest" by blast
    with p have "\<not> prefix sub out" by (auto dest: append_prefixD)
    from same[OF this] show ?thesis by (simp add: is_file_def)
  qed
  have fu: "files_under d' p = files_under d p"
    unfolding files_under_def r by (rule filter_cong) (auto simp: f)
  have c: "file_content d' sub = file_content d sub" if "sub \<in> set (files_under d p)" for sub
    using same[OF files_under_outside[OF that p]] by (simp add: file_content_def)
  have "map (\<lambda>sub. (join_slash (relative_to sub (parent p)), file_content d' sub)) (files_under d p)
      = map (\<lambda>sub. (join_slash (relative_to sub (parent p)), file_content d sub)) (files_under d p)"
    by (rule map_cong) (auto simp: c)
  with lp fu show ?thesis by (simp add: stored_def is_dir_def file_content_def)
qed

text \<open>One call of \<open>zf.write\<close> on a file appends one entry and touches nothing else.\<close>

lemma zf_write_file:
  assumes run: "zf_write E out src arc w = (Inr u, w')"
    and es0: "lookup (disk w) out = Some (File (Archive es0))"
    and src: "\<not> is_dir (disk w) src"
  shows "lookup (disk w') out = Some (File (Archive (es0 @ [(arc, file_content (disk w) src)])))"
    and "\<And>q. \<not> prefix q out \<Longrightarrow> lookup (disk w') q = lookup (disk w) q"
proof -
  from run src obtain c where c: "lookup (disk w) src = Some (File c)"
    by (auto simp: zf_write_def is_dir_def split: option.splits node.splits)
  with run es0 obtain d' where
    wr: "write_file (clock E (trace w)) out (Archive (es0 @ [(arc, c)])) (disk w) = Inr d'"
    and w': "w' = w\<lparr>disk := d'\<rparr>"
    by (auto simp: zf_write_def on_disk_def split: sum.splits)
  from write_file_lookup[OF wr] c w'
  show "lookup (disk w') out = Some (File (Archive (es0 @ [(arc, file_content (disk w) src)])))"
    by (simp add: file_content_def)
  fix q assume "\<not> prefix q out"
  from write_file_outside[OF wr this] w' show "lookup (disk w') q = lookup (disk w) q" by simp
qed

lemma for_each_Cons:
  "for_each (x # xs) f w = (Inr u, w') \<Longrightarrow>
   \<exists>w1. f x w = (Inr (), w1) \<and> for_each xs f w1 = (Inr u, w')"
  by (auto simp: for_each_def seq_def bind_def split: prod.splits sum.splits)

lemma for_each_Nil: "for_each [] f w = (Inr (), w)"
  by (simp add: for_each_def ret_def)

lemma zf_write_loop:
  assumes "for_each subs (\<lambda>sub. zf_write E out sub (g sub)) w = (Inr u, w')"
    and "lookup (disk w) out = Some (File (Archive es0))"
    and "\<And>sub. sub \<in> set subs \<Longrightarrow> is_file (disk w) sub \<and> \<not> prefix sub out"
  shows "lookup (disk w') out
           = Some (File (Archive (es0 @ map (\<lambda>sub. (g sub, file_content (disk w) sub)) subs)))
         \<and> (\<forall>q. \<not> prefix q out \<longrightarrow> lookup (disk w') q = lookup (disk w) q)"
  using assms
proof (induction subs arbitrary: w es0)
  case Nil
  then show ?case by (simp add: for_each_Nil)
next
  case (Cons s subs)
  from for_each_Cons[OF Cons.prems(1)] obtain w1 where
    s: "zf_write E out s (g s) w = (Inr (), w1)"
    and rest: "for_each subs (\<lambda>sub. zf_write E out sub (g sub)) w1 = (Inr u, w')" by blast
  from Cons.prems(3)[of s] have sf: "is_file (disk w) s" by simp
  then have nd: "\<not> is_dir (disk w) s"
    by (auto simp: is_file_def is_dir_def split: option.splits node.splits)
  note z = zf_write_file[OF s Cons.prems(2) nd]
  have keep: "is_file (disk w1) sub \<and> \<not> prefix sub out" if "sub \<in> set subs" for sub
  proof -
    from Cons.prems(3)[of sub] that have a: "is_file (disk w) sub" and b: "\<not> prefix sub out"
      by simp_all
    from z(2)[OF b] a b show ?thesis by (simp add: is_file_def)
  qed
  from Cons.IH[OF rest z(1) keep]
  have l: "lookup (disk w') out = Some (File (Archive ((es0 @ [(g s, file_content (disk w) s)])
              @ map (\<lambda>sub. (g sub, file_content (disk w1) sub)) subs)))"
    and o: "\<forall>q. \<not> prefix q out \<longrightarrow> lookup (disk w') q = lookup (disk w1) q" by simp_all
  have "map (\<lambda>sub. (g sub, file_content (disk w1) sub)) subs
      = map (\<lambda>sub. (g sub, file_content (disk w) sub)) subs"
  proof (rule map_cong[OF refl])
    fix sub assume "sub \<in> set subs"
    with Cons.prems(3)[of sub] have "\<not> prefix sub out" by simp
    from z(2)[OF this] show "(g sub, file_content (disk w1) sub) = (g sub, file_content (disk w) sub)"
      by (simp add: file_content_def)
  qed
  with l o z(2) show ?case by simp
qed

lemma zip_one_effect:
  assumes run: "zip_one E out p w = (Inr u, w')"
    and es0: "lookup (disk w) out = Some (File (Archive es0))"
    and p: "\<not> prefix p out"
  shows "lookup (disk w') out = Some (File (Archive (es0 @ stored (disk w) p)))
         \<and> (\<forall>q. \<not> prefix q out \<longrightarrow> lookup (disk w') q = lookup (disk w) q)"
proof (cases "is_dir (disk w) p")
  case True
  with run have r: "for_each (files_under (disk w) p)
      (\<lambda>sub. zf_write E out sub (join_slash (relative_to sub (parent p)))) w = (Inr u, w')"
    by (simp add: zip_one_def files_under_def)
  have "is_file (disk w) sub \<and> \<not> prefix sub out" if "sub \<in> set (files_under (disk w) p)" for sub
    using that files_under_outside[OF that p] by (simp add: files_under_def)
  from zf_write_loop[OF r es0 this] True show ?thesis by (simp add: stored_def)
next
  case False
  with run have r: "zf_write E out p (name_of p) w = (Inr u, w')" by (simp add: zip_one_def)
  from zf_write_file[OF r es0 False] False show ?thesis by (simp add: stored_def)
qed

lemma zip_one_loop:
  assumes "for_each paths (zip_one E out) w = (Inr u, w')"
    and "lookup (disk w) out = Some (File (Archive es0))"
    and "\<And>p. p \<in> set paths \<Longrightarrow> \<not> prefix p out"
  shows "lookup (disk w') out = Some (File (Archive (es0 @ concat (map (stored (disk w)) paths))))
         \<and> (\<forall>q. \<not> prefix q out \<longrightarrow> lookup (disk w') q = lookup (disk w) q)"
  using assms
proof (induction paths arbitrary: w es0)
  case Nil
  then show ?case by (simp add: for_each_Nil)
next
  case (Cons p paths)
  from for_each_Cons[OF Cons.prems(1)] obtain w1 where
    s: "zip_one E out p w = (Inr (), w1)"
    and rest: "for_each paths (zip_one E out) w1 = (Inr u, w')" by blast
  from Cons.prems(3)[of p] have p: "\<not> prefix p out" by simp
  from zip_one_effect[OF s Cons.prems(2) p]
  have z1: "lookup (disk w1) out = Some (File (Archive (es0 @ stored (disk w) p)))"
    and z2: "\<And>q. \<not> prefix q out \<Longrightarrow> lookup (disk w1) q = lookup (disk w) q" by simp_all
  have ps: "\<not> prefix q out" if "q \<in> set paths" for q using Cons.prems(3)[of q] that by simp
  from Cons.IH[OF rest z1 ps]
  have l: "lookup (disk w') out = Some (File (Archive ((es0 @ stored (disk w) p)
              @ concat (map (stored (disk w1)) paths))))"
    and o: "\<forall>q. \<not> prefix q out \<longrightarrow> lookup (disk w') q = lookup (disk w1) q" by simp_all
  have "map (stored (disk w1)) paths = map (stored (disk w)) paths"
    by (rule map_cong[OF refl]) (rule stored_cong[OF z2 ps])
  with l o z2 show ?case by simp
qed

lemma zip_paths_effect:
  assumes run: "zip_paths E paths out w = (Inr r, w')"
    and ps: "\<And>p. p \<in> set paths \<Longrightarrow> \<not> prefix p out"
  shows "archive (disk w') out = Some (concat (map (stored (disk w)) paths))"
proof -
  from run obtain d1 d2 u where
    m: "mkdirs (clock E (trace w)) (parent out) (disk w) = Inr d1"
    and c: "write_file (clock E (trace (w\<lparr>disk := d1\<rparr>))) out (Archive []) d1 = Inr d2"
    and l: "for_each paths (zip_one E out) (w\<lparr>disk := d1, disk := d2\<rparr>) = (Inr u, w')"
    by (auto simp: zip_paths_def mkdir_parents_def on_disk_def seq_def bind_def ret_def
             split: sum.splits prod.splits)
  let ?w2 = "w\<lparr>disk := d1, disk := d2\<rparr>"
  have a: "lookup (disk ?w2) out = Some (File (Archive []))"
    using write_file_lookup[OF c] by simp
  have same: "lookup (disk ?w2) q = lookup (disk w) q" if "\<not> prefix q out" for q
  proof -
    have "prefix (parent out) out" by (simp add: parent_def prefixeq_butlast)
    with that have "\<not> prefix q (parent out)" by (meson prefix_order.trans)
    from mkdirs_outside[OF m this] write_file_outside[OF c that] show ?thesis by simp
  qed
  from zip_one_loop[OF l a ps]
  have "lookup (disk w') out = Some (File (Archive (concat (map (stored (disk ?w2)) paths))))"
    by simp
  moreover have "concat (map (stored (disk ?w2)) paths) = concat (map (stored (disk w)) paths)"
    by (rule arg_cong[where f = concat], rule map_cong[OF refl], rule stored_cong[OF same ps])
  ultimately show ?thesis by (simp add: archive_def)
qed

text \<open>
  Claim C7. When \<open>zip_paths\<close> returns, and no input path is the archive or has it below
  itself, the archive holds the entries of the input paths one after the other. For a
  directory these are the files below it, in the order of the walk, each named by its
  path relative to the parent of the directory, with the content the file had. Every
  file of the disk below the directory is among them, so it has its entry in the archive;
  and when the directory has a name, the archive name of a file below it is that name, a
  slash, and the path of the file below the directory. For any other input path the
  entry is named by the last component of the path.
\<close>

theorem zip_paths_names:
  assumes "zip_paths E paths out w = (Inr r, w')"
    and "\<forall>p\<in>set paths. \<not> prefix p out"
  shows "r = out \<and>
    archive (disk w') out = Some (concat (map (stored (disk w)) paths)) \<and>
    (\<forall>p\<in>set paths. is_dir (disk w) p \<longrightarrow>
       stored (disk w) p = map (\<lambda>sub. (join_slash (relative_to sub (parent p)),
                                        file_content (disk w) sub)) (files_under (disk w) p) \<and>
       (\<forall>sub. sub \<in> set (files_under (disk w) p) \<longleftrightarrow>
                (\<exists>rest. rest \<noteq> [] \<and> sub = p @ rest \<and> is_file (disk w) sub)) \<and>
       (\<forall>rest c. rest \<noteq> [] \<and> lookup (disk w) (p @ rest) = Some (File c) \<longrightarrow>
          (\<exists>es. archive (disk w') out = Some es \<and>
                (join_slash (relative_to (p @ rest) (parent p)), c) \<in> set es)) \<and>
       (\<forall>rest. p \<noteq> [] \<and> rest \<noteq> [] \<longrightarrow>
          join_slash (relative_to (p @ rest) (parent p))
            = name_of p @ [0x2F] @ join_slash rest)) \<and>
    (\<forall>p\<in>set paths. \<not> is_dir (disk w) p \<longrightarrow>
       stored (disk w) p = [(name_of p, file_content (disk w) p)])"
proof -
  from assms(1) have 1: "r = out"
    by (auto simp: zip_paths_def seq_def bind_def ret_def split: sum.splits prod.splits)
  from assms(2) have 2: "archive (disk w') out = Some (concat (map (stored (disk w)) paths))"
    by (intro zip_paths_effect[OF assms(1)]) blast
  have 3: "stored (disk w) p = map (\<lambda>sub. (join_slash (relative_to sub (parent p)),
                                        file_content (disk w) sub)) (files_under (disk w) p)"
    if "is_dir (disk w) p" for p
    using that by (simp add: stored_def)
  have 4: "(join_slash (relative_to (p @ rest) (parent p)), c)
             \<in> set (concat (map (stored (disk w)) paths))"
    if p: "p \<in> set paths" and d: "is_dir (disk w) p"
      and r: "rest \<noteq> [] \<and> lookup (disk w) (p @ rest) = Some (File c)" for p rest c
  proof -
    from r have f: "is_file (disk w) (p @ rest)" and c: "file_content (disk w) (p @ rest) = c"
      by (simp_all add: is_file_def file_content_def)
    with r have "p @ rest \<in> set (files_under (disk w) p)" unfolding files_under_iff by blast
    then have "(join_slash (relative_to (p @ rest) (parent p)), file_content (disk w) (p @ rest))
                 \<in> set (stored (disk w) p)"
      unfolding 3[OF d] by force
    with p c show ?thesis by auto
  qed
  have 5: "join_slash (relative_to (p @ rest) (parent p)) = name_of p @ [0x2F] @ join_slash rest"
    if "p \<noteq> [] \<and> rest \<noteq> []" for p rest
    using that relative_to_parent[of p rest] by blast
  have 6: "stored (disk w) p = [(name_of p, file_content (disk w) p)]"
    if "\<not> is_dir (disk w) p" for p
    using that by (simp add: stored_def)
  from 1 2 3 4 5 6 show ?thesis unfolding files_under_iff by (simp add: 2)
qed

lemma nested_stored:
  "concat (map (stored nested_disk)
       [[ascii ''work'', ascii ''d''], [ascii ''work'', ascii ''c.txt'']])
   = [(ascii ''d/a.txt'', Bytes [1]), (ascii ''d/s/b.txt'', Bytes [2]),
      (ascii ''c.txt'', Bytes [3])]"
  by (simp add: stored_def nested_disk_def is_dir_def is_file_def files_under_def rglob_def
        children_def file_content_def relative_to_def parent_def name_of_def ascii_def)

lemma nested_run:
  "fst (zip_paths plain_env [[ascii ''work'', ascii ''d''], [ascii ''work'', ascii ''c.txt'']]
          [ascii ''output'', ascii ''d.zip''] (empty_world\<lparr>disk := nested_disk\<rparr>))
   = Inr [ascii ''output'', ascii ''d.zip'']"
  by (simp add: zip_paths_def zip_one_def zf_write_def for_each_def mkdir_parents_def on_disk_def
        seq_def bind_def ret_def plain_env_def empty_world_def nested_disk_def children_def
        is_dir_def is_file_def rglob_def relative_to_def parent_def name_of_def ascii_def)

theorem zip_paths_names_witness:
  "fst (zip_paths plain_env [[ascii ''work'', ascii ''d''], [ascii ''work'', ascii ''c.txt'']]
          [ascii ''output'', ascii ''d.zip''] (empty_world\<lparr>disk := nested_disk\<rparr>))
     = Inr [ascii ''output'', ascii ''d.zip''] \<and>
   archive (disk (snd (zip_paths plain_env
          [[ascii ''work'', ascii ''d''], [ascii ''work'', ascii ''c.txt'']]
          [ascii ''output'', ascii ''d.zip''] (empty_world\<lparr>disk := nested_disk\<rparr>))))
       [ascii ''output'', ascii ''d.zip'']
     = Some [(ascii ''d/a.txt'', Bytes [1]), (ascii ''d/s/b.txt'', Bytes [2]),
             (ascii ''c.txt'', Bytes [3])]"
proof -
  let ?ps = "[[ascii ''work'', ascii ''d''], [ascii ''work'', ascii ''c.txt'']]"
  let ?out = "[ascii ''output'', ascii ''d.zip'']"
  let ?w = "empty_world\<lparr>disk := nested_disk\<rparr>"
  have run: "zip_paths plain_env ?ps ?out ?w
               = (Inr ?out, snd (zip_paths plain_env ?ps ?out ?w))"
    using nested_run by (metis prod.collapse)
  have apart: "\<forall>p\<in>set ?ps. \<not> prefix p ?out" by (simp add: ascii_def)
  have d: "disk ?w = nested_disk" by simp
  from zip_paths_names[OF run apart]
  have "archive (disk (snd (zip_paths plain_env ?ps ?out ?w))) ?out
          = Some (concat (map (stored (disk ?w)) ?ps))" by blast
  with nested_run show ?thesis unfolding d nested_stored by simp
qed

end
